theory Spec2Isabelle
  imports Complex_Main
begin

section \<open>Text: Python strings as lists of code points\<close>

text \<open>
  A Python \<^verbatim>\<open>str\<close> is a sequence of Unicode code points, so recognized text is a list of
  natural numbers and \<open>length\<close> counts what \<^verbatim>\<open>len\<close> counts. The character classes
  (\<^verbatim>\<open>\d\<close>, \<^verbatim>\<open>\s\<close>, \<^verbatim>\<open>\w\<close>,
  \<^verbatim>\<open>str.lower\<close>, \<^verbatim>\<open>str.isdigit\<close>, \<^verbatim>\<open>str.strip\<close>) are
  the ASCII ones; a code point beyond ASCII is a caseless symbol that is neither a digit, nor
  white space, nor a word character. That is what the rupee sign U+20B9 of the amount patterns
  is. Source constants are written as HOL string literals and converted by \<open>str\<close>.
\<close>

type_synonym ustr = "nat list"

definition str :: "string \<Rightarrow> ustr" where
  "str s = map of_char s"

definition rupee :: nat where
  "rupee = 8377"

definition is_digit :: "nat \<Rightarrow> bool" where
  "is_digit c = (48 \<le> c \<and> c \<le> 57)"

text \<open>White space of \<^verbatim>\<open>str.isspace\<close> and \<^verbatim>\<open>\s\<close> in the ASCII range:
  TAB, LF, VT, FF, CR, the separators 0x1C to 0x1F, and the space.\<close>

definition is_space :: "nat \<Rightarrow> bool" where
  "is_space c = ((9 \<le> c \<and> c \<le> 13) \<or> (28 \<le> c \<and> c \<le> 32))"

definition lower_cp :: "nat \<Rightarrow> nat" where
  "lower_cp c = (if 65 \<le> c \<and> c \<le> 90 then c + 32 else c)"

definition upper_cp :: "nat \<Rightarrow> nat" where
  "upper_cp c = (if 97 \<le> c \<and> c \<le> 122 then c - 32 else c)"

definition is_word :: "nat \<Rightarrow> bool" where
  "is_word c = (is_digit c \<or> (65 \<le> c \<and> c \<le> 90) \<or> (97 \<le> c \<and> c \<le> 122) \<or> c = 95)"

definition lower :: "ustr \<Rightarrow> ustr" where
  "lower s = map lower_cp s"

fun starts_with :: "ustr \<Rightarrow> ustr \<Rightarrow> bool" where
  "starts_with [] s = True"
| "starts_with (k # ks) [] = False"
| "starts_with (k # ks) (c # s) = (k = c \<and> starts_with ks s)"

text \<open>\<^verbatim>\<open>k in s\<close>: the first argument occurs in the second as a contiguous run.\<close>

fun contains :: "ustr \<Rightarrow> ustr \<Rightarrow> bool" where
  "contains k [] = (k = [])"
| "contains k (c # s) = (starts_with k (c # s) \<or> contains k s)"

text \<open>\<^verbatim>\<open>s.split(sep)\<close> for a one-character separator: empty pieces are kept.\<close>

fun split_on :: "nat \<Rightarrow> ustr \<Rightarrow> ustr list" where
  "split_on sep [] = [[]]"
| "split_on sep (c # s) =
     (case split_on sep s of
        [] \<Rightarrow> [[c]]
      | w # ws \<Rightarrow> if c = sep then [] # w # ws else (c # w) # ws)"

text \<open>\<^verbatim>\<open>s.split()\<close>: the maximal runs of characters that are not white space.\<close>

fun split_ws :: "ustr \<Rightarrow> ustr list" where
  "split_ws [] = []"
| "split_ws (c # s) =
     (if is_space c then split_ws s
      else (case s of
              [] \<Rightarrow> [[c]]
            | d # s' \<Rightarrow> if is_space d then [c] # split_ws s
                        else (case split_ws s of [] \<Rightarrow> [[c]] | w # ws \<Rightarrow> (c # w) # ws)))"

definition strip :: "ustr \<Rightarrow> ustr" where
  "strip s = rev (dropWhile is_space (rev (dropWhile is_space s)))"

text \<open>\<^verbatim>\<open>re.sub(r'\s+', ' ', s)\<close>: every run of white space becomes one space.\<close>

fun collapse_ws :: "ustr \<Rightarrow> ustr" where
  "collapse_ws [] = []"
| "collapse_ws (c # s) =
     (if is_space c
      then (case s of
              [] \<Rightarrow> [32]
            | d # _ \<Rightarrow> if is_space d then collapse_ws s else 32 # collapse_ws s)
      else c # collapse_ws s)"

definition isdigit :: "ustr \<Rightarrow> bool" where
  "isdigit s = (s \<noteq> [] \<and> list_all is_digit s)"

section \<open>Regular expressions with the backtracking order of Python's re\<close>

text \<open>
  A pattern is a term of \<open>rx\<close>. A character class is a list of items: a range of code
  points, \<^verbatim>\<open>\d\<close> or \<^verbatim>\<open>\s\<close>. \<open>Rep m n r\<close> is the greedy
  \<^verbatim>\<open>r{m,n}\<close> (no upper bound for \<open>None\<close>), \<open>Grp i r\<close> a capturing group,
  \<open>WordB\<close> is \<^verbatim>\<open>\b\<close>, \<open>Bol\<close> and \<open>Eol\<close> are \<^verbatim>\<open>^\<close> and
  \<^verbatim>\<open>$\<close>.
\<close>

datatype citem = R nat nat | D | S

datatype rx = Eps | Ch "citem list" | Seq rx rx | Alt rx rx | Rep nat "nat option" rx
  | Grp nat rx | WordB | Bol | Eol

text \<open>Under IGNORECASE a range accepts a character whose lower or upper case lies in it.\<close>

fun item_match :: "bool \<Rightarrow> citem \<Rightarrow> nat \<Rightarrow> bool" where
  "item_match ic (R lo hi) c = ((lo \<le> c \<and> c \<le> hi) \<or>
     (ic \<and> ((lo \<le> lower_cp c \<and> lower_cp c \<le> hi) \<or> (lo \<le> upper_cp c \<and> upper_cp c \<le> hi))))"
| "item_match ic D c = is_digit c"
| "item_match ic S c = is_space c"

definition cls_match :: "bool \<Rightarrow> citem list \<Rightarrow> nat \<Rightarrow> bool" where
  "cls_match ic items c = list_ex (\<lambda>i. item_match ic i c) items"

text \<open>
  A matcher state: the character before the current position (\<open>None\<close> at the start of
  the subject), the rest of the subject, and the groups captured so far, latest first.
\<close>

type_synonym mstate = "nat option \<times> ustr \<times> (nat \<times> ustr) list"

fun rsize :: "rx \<Rightarrow> nat" where
  "rsize (Seq a b) = Suc (rsize a + rsize b)"
| "rsize (Alt a b) = Suc (rsize a + rsize b)"
| "rsize (Rep m n r) = Suc (rsize r)"
| "rsize (Grp i r) = Suc (rsize r)"
| "rsize _ = 0"

definition word_opt :: "nat option \<Rightarrow> bool" where
  "word_opt p = (case p of None \<Rightarrow> False | Some c \<Rightarrow> is_word c)"

definition dec_bound :: "nat option \<Rightarrow> nat option" where
  "dec_bound n = (case n of None \<Rightarrow> None | Some k \<Rightarrow> Some (k - 1))"

text \<open>
  \<open>ms ic ml r st\<close> lists every way \<open>r\<close> can match at \<open>st\<close>, in the order in which
  the backtracking matcher tries them: the left alternative first, more repetitions first.
  The head of the list is the match that \<^verbatim>\<open>re\<close> reports. \<open>ic\<close> is IGNORECASE,
  \<open>ml\<close> is MULTILINE. A repetition goes on only after an iteration that consumed input
  (no loop body of the patterns of this program matches the empty string).
\<close>

function ms :: "bool \<Rightarrow> bool \<Rightarrow> rx \<Rightarrow> mstate \<Rightarrow> mstate list" where
  "ms ic ml Eps st = [st]"
| "ms ic ml (Ch items) (p, s, cs) =
     (case s of [] \<Rightarrow> [] | c # s' \<Rightarrow> if cls_match ic items c then [(Some c, s', cs)] else [])"
| "ms ic ml (Seq a b) st = concat (map (ms ic ml b) (ms ic ml a st))"
| "ms ic ml (Alt a b) st = ms ic ml a st @ ms ic ml b st"
| "ms ic ml (Rep m n r) (p, s, cs) =
     (if n = Some 0 then (if m = 0 then [(p, s, cs)] else [])
      else concat (map (ms ic ml (Rep (m - 1) (dec_bound n) r))
                    (filter (\<lambda>st'. length (fst (snd st')) < length s) (ms ic ml r (p, s, cs))))
           @ (if m = 0 then [(p, s, cs)] else []))"
| "ms ic ml (Grp i r) (p, s, cs) =
     map (\<lambda>(p', s', cs'). (p', s', (i, take (length s - length s') s) # cs')) (ms ic ml r (p, s, cs))"
| "ms ic ml WordB (p, s, cs) =
     (if word_opt p \<noteq> word_opt (case s of [] \<Rightarrow> None | c # _ \<Rightarrow> Some c) then [(p, s, cs)] else [])"
| "ms ic ml Bol (p, s, cs) = (if p = None \<or> (ml \<and> p = Some 10) then [(p, s, cs)] else [])"
| "ms ic ml Eol (p, s, cs) =
     (if s = [] \<or> (ml \<and> hd s = 10) \<or> (\<not> ml \<and> s = [10]) then [(p, s, cs)] else [])"
  by pat_completeness auto
termination
  by (relation "inv_image (less_than <*lex*> less_than)
        (\<lambda>(ic, ml, r, st). (rsize r, length (fst (snd st))))") auto

declare ms.simps(5) [simp del]

text \<open>\<^verbatim>\<open>re.search\<close>: the leftmost position with a match; the result is the subject from
  the start of the match on, and the state at its end.\<close>

fun search_from :: "bool \<Rightarrow> bool \<Rightarrow> rx \<Rightarrow> nat option \<Rightarrow> ustr \<Rightarrow> (ustr \<times> mstate) option" where
  "search_from ic ml r p [] =
     (case ms ic ml r (p, [], []) of [] \<Rightarrow> None | st # _ \<Rightarrow> Some ([], st))"
| "search_from ic ml r p (c # s) =
     (case ms ic ml r (p, c # s, []) of
        [] \<Rightarrow> search_from ic ml r (Some c) s
      | st # _ \<Rightarrow> Some (c # s, st))"

definition matched :: "ustr \<times> mstate \<Rightarrow> ustr" where
  "matched m = (case m of (s, (p, s', cs)) \<Rightarrow> take (length s - length s') s)"

definition group_of :: "nat \<Rightarrow> ustr \<times> mstate \<Rightarrow> ustr" where
  "group_of i m = (case m of (s, (p, s', cs)) \<Rightarrow> (case map_of cs i of None \<Rightarrow> [] | Some g \<Rightarrow> g))"

text \<open>\<^verbatim>\<open>re.search(pattern, text, flags)\<close>, returning the match object.\<close>

definition re_search :: "bool \<Rightarrow> bool \<Rightarrow> rx \<Rightarrow> ustr \<Rightarrow> (ustr \<times> mstate) option" where
  "re_search ic ml r s = search_from ic ml r None s"

text \<open>\<^verbatim>\<open>re.match(pattern, s)\<close>: a match at the start of the subject only.\<close>

definition re_match :: "bool \<Rightarrow> bool \<Rightarrow> rx \<Rightarrow> ustr \<Rightarrow> (ustr \<times> mstate) option" where
  "re_match ic ml r s = (case ms ic ml r (None, s, []) of [] \<Rightarrow> None | st # _ \<Rightarrow> Some (s, st))"

text \<open>
  \<^verbatim>\<open>re.findall\<close> for a pattern with one group: the text of group 1 of every match, left
  to right, each search starting where the previous match ended (one character further after
  an empty match).
\<close>

function findall_from :: "bool \<Rightarrow> bool \<Rightarrow> rx \<Rightarrow> nat option \<Rightarrow> ustr \<Rightarrow> ustr list" where
  "findall_from ic ml r p s =
     (case search_from ic ml r p s of
        None \<Rightarrow> []
      | Some (s0, (p', s', cs)) \<Rightarrow>
          group_of 1 (s0, (p', s', cs)) #
            (if length s' < length s0 \<and> length s' < length s then findall_from ic ml r p' s'
             else (case s0 of [] \<Rightarrow> [] | c # t \<Rightarrow>
                     if length t < length s then findall_from ic ml r (Some c) t else [])))"
  by pat_completeness auto
termination
  by (relation "measure (\<lambda>(ic, ml, r, p, s). length s)") auto

declare findall_from.simps [simp del]

definition re_findall :: "bool \<Rightarrow> bool \<Rightarrow> rx \<Rightarrow> ustr \<Rightarrow> ustr list" where
  "re_findall ic ml r s = findall_from ic ml r None s"

subsection \<open>Pattern notation\<close>

definition dig :: rx where
  "dig = Ch [D]"

definition spc :: rx where
  "spc = Ch [S]"

definition chr :: "char \<Rightarrow> rx" where
  "chr c = Ch [R (of_char c) (of_char c)]"

definition rng :: "char \<Rightarrow> char \<Rightarrow> citem" where
  "rng a b = R (of_char a) (of_char b)"

definition one :: "char \<Rightarrow> citem" where
  "one a = R (of_char a) (of_char a)"

definition ropt :: "rx \<Rightarrow> rx" where
  "ropt r = Rep 0 (Some 1) r"

definition rstar :: "rx \<Rightarrow> rx" where
  "rstar r = Rep 0 None r"

definition rplus :: "rx \<Rightarrow> rx" where
  "rplus r = Rep 1 None r"

definition seqs :: "rx list \<Rightarrow> rx" where
  "seqs rs = foldr Seq rs Eps"

fun alts :: "rx list \<Rightarrow> rx" where
  "alts [] = Eps"
| "alts [r] = r"
| "alts (r # rs) = Alt r (alts rs)"

definition lit :: "string \<Rightarrow> rx" where
  "lit s = seqs (map chr s)"

section \<open>The configuration tables of EnhancedOCREngine\<close>

definition total_keywords :: "ustr list" where
  "total_keywords = map str
     [''total'', ''grand total'', ''net amount'', ''amount due'', ''amount payable'',
      ''bill amount'', ''final amount'', ''total amount'', ''total payable'',
      ''you paid'', ''paid amount'', ''payment'', ''balance'', ''net total'',
      ''amount paid'', ''total paid'', ''invoice total'', ''order total'',
      ''subtotal'', ''sub total'', ''charged'', ''debit'', ''credit'',
      ''transferred'', ''received'', ''deposited'', ''withdrawn'']"

definition ignore_keywords :: "ustr list" where
  "ignore_keywords = map str
     [''cgst'', ''sgst'', ''igst'', ''gst'', ''tax'', ''vat'', ''service charge'',
      ''delivery charge'', ''discount'', ''offer'', ''saved'', ''savings'',
      ''tip'', ''cashback'', ''wallet'', ''points'', ''rewards'',
      ''packing charge'', ''convenience fee'', ''handling charge'',
      ''item'', ''qty'', ''quantity'', ''price'', ''rate'', ''mrp'',
      ''phone'', ''mobile'', ''email'', ''address'', ''pincode'', ''gstin'']"

text \<open>\<^verbatim>\<open>(?:Jan|Feb|Mar|Apr|May|Jun|Jul|Aug|Sep|Oct|Nov|Dec)\<close>\<close>

definition month_abbr :: rx where
  "month_abbr = alts (map lit [''Jan'', ''Feb'', ''Mar'', ''Apr'', ''May'', ''Jun'',
                               ''Jul'', ''Aug'', ''Sep'', ''Oct'', ''Nov'', ''Dec''])"

text \<open>\<^verbatim>\<open>[/-]\<close>\<close>

definition date_sep :: rx where
  "date_sep = Ch [one CHR ''/'', one CHR ''-'']"

definition date_patterns :: "rx list" where
  "date_patterns =
     [seqs [Rep 1 (Some 2) dig, date_sep, Rep 1 (Some 2) dig, date_sep, Rep 2 (Some 4) dig],
      seqs [Rep 4 (Some 4) dig, date_sep, Rep 1 (Some 2) dig, date_sep, Rep 1 (Some 2) dig],
      seqs [Rep 1 (Some 2) dig, rplus spc, month_abbr, rstar (Ch [rng CHR ''a'' CHR ''z'']),
            rplus spc, Rep 2 (Some 4) dig],
      seqs [month_abbr, rstar (Ch [rng CHR ''a'' CHR ''z'']), rplus spc, Rep 1 (Some 2) dig,
            ropt (chr CHR '',''), rplus spc, Rep 4 (Some 4) dig]]"

text \<open>\<^verbatim>\<open>\d{1,3}(?:,\d{3})*(?:\.\d{2})?\<close>, the group of the currency and bank patterns.\<close>

definition amount_shape :: rx where
  "amount_shape =
     seqs [Rep 1 (Some 3) dig,
           rstar (seqs [chr CHR '','', Rep 3 (Some 3) dig]),
           ropt (seqs [chr CHR ''.'', Rep 2 (Some 2) dig])]"

definition amount_patterns :: "rx list" where
  "amount_patterns =
     [seqs [alts [seqs [lit ''Rs'', ropt (chr CHR ''.'')], Ch [R rupee rupee], lit ''INR'',
                  seqs [lit ''rs'', ropt (chr CHR ''.'')]],
            rstar spc, Grp 1 amount_shape],
      seqs [Grp 1 amount_shape, rstar spc,
            alts [seqs [lit ''Rs'', ropt (chr CHR ''.'')], Ch [R rupee rupee], lit ''INR'']],
      seqs [WordB,
            Grp 1 (seqs [Rep 1 (Some 3) dig, rplus (seqs [chr CHR '','', Rep 3 (Some 3) dig]),
                         chr CHR ''.'', Rep 2 (Some 2) dig]),
            WordB],
      seqs [WordB, Grp 1 (Rep 4 None dig), WordB]]"

text \<open>The tail shared by the three bank patterns:
  \<^verbatim>\<open>\s*:?\s*(?:Rs\.?|U+20B9)?\s*(\d{1,3}(?:,\d{3})*(?:\.\d{2})?)\<close>, where U+20B9
  stands for the rupee sign.\<close>

definition bank_tail :: "rx list" where
  "bank_tail =
     [rstar spc, ropt (chr CHR '':''), rstar spc,
      ropt (alts [seqs [lit ''Rs'', ropt (chr CHR ''.'')], Ch [R rupee rupee]]),
      rstar spc, Grp 1 amount_shape]"

definition bank_patterns :: "(string \<times> rx) list" where
  "bank_patterns =
     [(''credit'', seqs (alts (map lit [''cr'', ''credit'', ''credited'', ''deposit'', ''received''])
                         # bank_tail)),
      (''debit'', seqs (alts (map lit [''dr'', ''debit'', ''debited'', ''withdraw'', ''withdrawn'',
                                       ''paid''])
                        # bank_tail)),
      (''balance'', seqs (alts (map lit [''balance'', ''bal'', ''available balance''])
                          # bank_tail))]"

text \<open>\<^verbatim>\<open>[A-Za-z0-9\s&.-]\<close>\<close>

definition name_char :: "citem list" where
  "name_char = [rng CHR ''A'' CHR ''Z'', rng CHR ''a'' CHR ''z'', rng CHR ''0'' CHR ''9'', S,
                one CHR ''&'', one CHR ''.'', one CHR ''-'']"

definition merchant_patterns :: "rx list" where
  "merchant_patterns =
     [seqs [alts (map lit [''from'', ''to'', ''merchant'', ''vendor'', ''seller'', ''store'']),
            rplus (Ch [S, one CHR '':'']), Grp 1 (rplus (Ch name_char))],
      seqs [alts (map lit [''paid to'', ''received from'']),
            rplus (Ch [S, one CHR '':'']), Grp 1 (rplus (Ch name_char))],
      seqs [Bol, Grp 1 (seqs [Ch [rng CHR ''A'' CHR ''Z''], Rep 2 (Some 30) (Ch name_char)])]]"

section \<open>Amount cleaning\<close>

text \<open>
  An amount is a Python float. It is modelled by the exact rational value of the decimal
  numeral it was read from: the rounding of \<^verbatim>\<open>float\<close> to binary64 and its overflow
  to infinity on a numeral of more than 308 digits are not modelled, and neither is the text
  that Python prints for a float.
\<close>

datatype exn = IndexError

definition seq_exn :: "exn + 'a \<Rightarrow> ('a \<Rightarrow> exn + 'b) \<Rightarrow> exn + 'b" where
  "seq_exn x f = (case x of Inl e \<Rightarrow> Inl e | Inr v \<Rightarrow> f v)"

definition digits_val :: "ustr \<Rightarrow> nat" where
  "digits_val s = foldl (\<lambda>n c. 10 * n + (c - 48)) 0 s"

text \<open>\<^verbatim>\<open>float(s)\<close> on a string of digits and dots, the only strings that reach it:
  digits with at most one dot and at least one digit; \<open>None\<close> is the ValueError.\<close>

definition py_float :: "ustr \<Rightarrow> rat option" where
  "py_float s =
     (case split_on 46 s of
        [a] \<Rightarrow> if a \<noteq> [] \<and> list_all is_digit a then Some (of_nat (digits_val a)) else None
      | [a, b] \<Rightarrow>
          if (a \<noteq> [] \<or> b \<noteq> []) \<and> list_all is_digit a \<and> list_all is_digit b
          then Some (of_nat (digits_val a) + of_nat (digits_val b) / 10 ^ length b)
          else None
      | _ \<Rightarrow> None)"

text \<open>\<^verbatim>\<open>^\d+(?:,\d{3})*(?:\.\d{2})?$\<close>\<close>

definition last_part_pattern :: rx where
  "last_part_pattern =
     seqs [Bol, rplus dig, rstar (seqs [chr CHR '','', Rep 3 (Some 3) dig]),
           ropt (seqs [chr CHR ''.'', Rep 2 (Some 2) dig]), Eol]"

text \<open>
  \<^verbatim>\<open>_clean_amount\<close>, up to the call of \<^verbatim>\<open>float\<close>: the text that is handed to
  it. \<^verbatim>\<open>parts[-1]\<close> raises IndexError, which the function does not catch, when the string
  holds a space and nothing but white space.
\<close>

definition clean_text :: "ustr \<Rightarrow> exn + ustr" where
  "clean_text amount_str =
     (if 32 \<in> set amount_str \<and> split_ws amount_str = [] then Inl IndexError
      else
        let amount_str1 =
              (if 32 \<in> set amount_str \<and>
                  re_match False False last_part_pattern
                    (filter (\<lambda>c. c \<noteq> 44) (last (split_ws amount_str))) \<noteq> None
               then last (split_ws amount_str) else amount_str);
            cleaned1 = filter (\<lambda>c. is_digit c \<or> c = 44 \<or> c = 46) amount_str1;
            cleaned2 = filter (\<lambda>c. c \<noteq> 44) cleaned1;
            cleaned3 =
              (if 1 < count_list cleaned2 46
               then concat (butlast (split_on 46 cleaned2)) @ [46] @ last (split_on 46 cleaned2)
               else cleaned2)
        in Inr cleaned3)"

text \<open>\<^verbatim>\<open>_clean_amount\<close>: the cleaned text read by \<^verbatim>\<open>float\<close>, whose ValueError is
  caught and gives \<open>None\<close>.\<close>

definition clean_amount :: "ustr \<Rightarrow> exn + rat option" where
  "clean_amount amount_str = seq_exn (clean_text amount_str) (\<lambda>cleaned. Inr (py_float cleaned))"

section \<open>AmountResolver\<close>

record cand =
  amount :: rat
  priority :: int
  line :: ustr
  line_index :: int

text \<open>The two nested loops over the amount patterns and their matches in one line.\<close>

definition amount_matches :: "ustr \<Rightarrow> ustr list" where
  "amount_matches l = concat (map (\<lambda>pattern. re_findall True False pattern l) amount_patterns)"

text \<open>Cleaning the matches in order; a match that does not parse is dropped, the first
  exception ends the loop.\<close>

fun clean_all :: "ustr list \<Rightarrow> exn + (ustr \<times> rat) list" where
  "clean_all [] = Inr []"
| "clean_all (m # rest) =
     (case clean_amount m of
        Inl e \<Rightarrow> Inl e
      | Inr a \<Rightarrow>
          (case clean_all rest of
             Inl e \<Rightarrow> Inl e
           | Inr vs \<Rightarrow> Inr (case a of None \<Rightarrow> vs | Some v \<Rightarrow> (m, v) # vs)))"

definition has_keyword :: "ustr list \<Rightarrow> ustr \<Rightarrow> bool" where
  "has_keyword keywords s = list_ex (\<lambda>keyword. contains keyword s) keywords"

text \<open>Strategy 1, the candidates of a keyword line itself, at index \<open>i\<close>.\<close>

definition same_line_cands :: "int \<Rightarrow> ustr \<Rightarrow> exn + cand list" where
  "same_line_cands i l =
     seq_exn (clean_all (amount_matches l)) (\<lambda>vs.
       Inr (map (\<lambda>(m, a).
              \<lparr>amount = a,
               priority = (if contains (str ''grand total'') (lower l) \<or>
                              contains (str ''net amount'') (lower l) then 200 else 100),
               line = l, line_index = i\<rparr>) vs))"

text \<open>Strategy 1, the candidates of the line after a keyword line; \<open>i\<close> is its index.\<close>

definition next_line_cands :: "int \<Rightarrow> ustr \<Rightarrow> exn + cand list" where
  "next_line_cands i next_line =
     seq_exn (clean_all (amount_matches next_line)) (\<lambda>vs.
       Inr (map (\<lambda>(m, a). \<lparr>amount = a, priority = 90, line = next_line, line_index = i\<rparr>) vs))"

fun strategy1 :: "int \<Rightarrow> ustr list \<Rightarrow> exn + cand list" where
  "strategy1 i [] = Inr []"
| "strategy1 i (l # ls) =
     (if has_keyword total_keywords (lower l) \<and> \<not> has_keyword ignore_keywords (lower l)
      then
        (case same_line_cands i l of
           Inl e \<Rightarrow> Inl e
         | Inr same \<Rightarrow>
             (case (case ls of [] \<Rightarrow> Inr [] | next_line # _ \<Rightarrow> next_line_cands (i + 1) next_line) of
                Inl e \<Rightarrow> Inl e
              | Inr nxt \<Rightarrow>
                  (case strategy1 (i + 1) ls of
                     Inl e \<Rightarrow> Inl e
                   | Inr rest \<Rightarrow> Inr (same @ nxt @ rest))))
      else strategy1 (i + 1) ls)"

text \<open>Strategy 2: the credit and the debit pattern over the whole text.\<close>

definition strategy2 :: "ustr \<Rightarrow> exn + cand list" where
  "strategy2 text =
     seq_exn (clean_all (concat (map (\<lambda>(pattern_name, pattern).
                if pattern_name \<in> {''credit'', ''debit''} then re_findall True False pattern text
                else []) bank_patterns)))
       (\<lambda>vs. Inr (map (\<lambda>(m, a). \<lparr>amount = a, priority = 80, line = m, line_index = - 1\<rparr>) vs))"

definition is_integer :: "rat \<Rightarrow> bool" where
  "is_integer a = (of_int \<lfloor>a\<rfloor> = a)"

text \<open>Strategy 3, the amounts one line adds to \<^verbatim>\<open>all_amounts\<close>.\<close>

definition line_amounts :: "ustr \<Rightarrow> exn + rat list" where
  "line_amounts l =
     (if has_keyword ignore_keywords (lower l) then Inr []
      else seq_exn (clean_all (amount_matches l)) (\<lambda>vs.
             Inr (filter (\<lambda>a. 1 < a \<and> \<not> (is_integer a \<and> 2000 \<le> a \<and> a \<le> 2100)) (map snd vs))))"

fun all_amounts :: "ustr list \<Rightarrow> exn + rat list" where
  "all_amounts [] = Inr []"
| "all_amounts (l # ls) =
     (case line_amounts l of
        Inl e \<Rightarrow> Inl e
      | Inr vs \<Rightarrow> (case all_amounts ls of Inl e \<Rightarrow> Inl e | Inr ws \<Rightarrow> Inr (vs @ ws)))"

definition strategy3 :: "ustr list \<Rightarrow> exn + cand list" where
  "strategy3 ls =
     seq_exn (all_amounts ls) (\<lambda>vs.
       Inr (if vs = [] then []
            else [\<lparr>amount = Max (set vs), priority = 50, line = [], line_index = - 1\<rparr>]))"

text \<open>The candidate list at the end of the cascade: a strategy runs only while the list
  is empty.\<close>

definition candidates :: "ustr \<Rightarrow> exn + cand list" where
  "candidates text =
     seq_exn (strategy1 0 (split_on 10 text)) (\<lambda>c1.
       if c1 \<noteq> [] then Inr c1
       else seq_exn (strategy2 text) (\<lambda>c2.
              if c2 \<noteq> [] then Inr c2 else strategy3 (split_on 10 text)))"

text \<open>\<^verbatim>\<open>candidates.sort(key=lambda x: x['priority'], reverse=True)\<close> is a stable sort by
  descending priority; the amount of its first element is returned.\<close>

definition select :: "cand list \<Rightarrow> rat option" where
  "select cs = (case sort_key (\<lambda>c. - priority c) cs of [] \<Rightarrow> None | c # _ \<Rightarrow> Some (amount c))"

definition extract_total_amount :: "ustr \<Rightarrow> exn + rat option" where
  "extract_total_amount text = seq_exn (candidates text) (\<lambda>cs. Inr (select cs))"

section \<open>DateResolver\<close>

text \<open>
  \<^verbatim>\<open>datetime.strptime\<close> compiles a format into a regular expression, one named group
  per directive, matches it at the start of the string under IGNORECASE and rejects a match
  that leaves characters over. A group is named here by the code point of its directive letter.
  The month names are those of the C locale.
\<close>

definition dir_d :: rx where
  "dir_d = alts [seqs [chr CHR ''3'', Ch [rng CHR ''0'' CHR ''1'']],
                 seqs [Ch [rng CHR ''1'' CHR ''2''], dig],
                 seqs [chr CHR ''0'', Ch [rng CHR ''1'' CHR ''9'']],
                 Ch [rng CHR ''1'' CHR ''9''],
                 seqs [chr CHR '' '', Ch [rng CHR ''1'' CHR ''9'']]]"

definition dir_m :: rx where
  "dir_m = alts [seqs [chr CHR ''1'', Ch [rng CHR ''0'' CHR ''2'']],
                 seqs [chr CHR ''0'', Ch [rng CHR ''1'' CHR ''9'']],
                 Ch [rng CHR ''1'' CHR ''9'']]"

definition a_month :: "string list" where
  "a_month = [''jan'', ''feb'', ''mar'', ''apr'', ''may'', ''jun'',
              ''jul'', ''aug'', ''sep'', ''oct'', ''nov'', ''dec'']"

definition f_month :: "string list" where
  "f_month = [''january'', ''february'', ''march'', ''april'', ''may'', ''june'',
              ''july'', ''august'', ''september'', ''october'', ''november'', ''december'']"

text \<open>The alternatives of a name directive are sorted by descending length (a stable sort).\<close>

definition directive :: "char \<Rightarrow> rx" where
  "directive c =
     (if c = CHR ''d'' then Grp (of_char c) dir_d
      else if c = CHR ''m'' then Grp (of_char c) dir_m
      else if c = CHR ''Y'' then Grp (of_char c) (seqs [dig, dig, dig, dig])
      else if c = CHR ''y'' then Grp (of_char c) (seqs [dig, dig])
      else if c = CHR ''b'' then Grp (of_char c) (alts (map lit a_month))
      else if c = CHR ''B'' then
        Grp (of_char c) (alts (map lit [''september'', ''february'', ''november'', ''december'',
                                        ''january'', ''october'', ''august'', ''march'', ''april'',
                                        ''june'', ''july'', ''may'']))
      else Eps)"

text \<open>\<^verbatim>\<open>TimeRE.pattern\<close>: a run of white space in the format becomes
  \<^verbatim>\<open>\s+\<close>, a directive its group, any other character itself.\<close>

fun fmt_rx :: "string \<Rightarrow> rx" where
  "fmt_rx [] = Eps"
| "fmt_rx [c] = (if is_space (of_char c) then rplus spc else chr c)"
| "fmt_rx (c # d # cs) =
     (if c = CHR ''%'' then Seq (directive d) (fmt_rx cs)
      else if is_space (of_char c)
      then (if is_space (of_char d) then fmt_rx (d # cs) else Seq (rplus spc) (fmt_rx (d # cs)))
      else Seq (chr c) (fmt_rx (d # cs)))"

text \<open>\<^verbatim>\<open>int(s)\<close> on the text of a numeric group (the day group may start with a space).\<close>

definition py_int :: "ustr \<Rightarrow> nat" where
  "py_int s = digits_val (strip s)"

fun index_of :: "'a list \<Rightarrow> 'a \<Rightarrow> nat" where
  "index_of [] x = 0"
| "index_of (y # ys) x = (if x = y then 0 else index_of ys x + 1)"

type_synonym date = "nat \<times> nat \<times> nat"

definition is_leap :: "nat \<Rightarrow> bool" where
  "is_leap y = (y mod 4 = 0 \<and> (y mod 100 \<noteq> 0 \<or> y mod 400 = 0))"

definition days_in_month :: "nat \<Rightarrow> nat \<Rightarrow> nat" where
  "days_in_month y m =
     (if m = 2 then (if is_leap y then 29 else 28)
      else if m = 4 \<or> m = 6 \<or> m = 9 \<or> m = 11 then 30 else 31)"

text \<open>The range check of the \<^verbatim>\<open>date\<close> constructor (MINYEAR is 1, MAXYEAR 9999).\<close>

definition valid_date :: "date \<Rightarrow> bool" where
  "valid_date dt =
     (case dt of (y, m, d) \<Rightarrow>
        1 \<le> y \<and> y \<le> 9999 \<and> 1 \<le> m \<and> m \<le> 12 \<and> 1 \<le> d \<and> d \<le> days_in_month y m)"

text \<open>The year, month and day that \<^verbatim>\<open>_strptime\<close> reads from the groups of a match.
  A two-digit year up to 68 is in the 2000s; a month name gives its position in the locale's
  list.\<close>

definition date_fields :: "(nat \<times> ustr) list \<Rightarrow> date" where
  "date_fields cs =
     (let year =
            (case map_of cs (of_char CHR ''Y'') of
               Some g \<Rightarrow> py_int g
             | None \<Rightarrow>
                 (case map_of cs (of_char CHR ''y'') of
                    Some g \<Rightarrow> (if py_int g \<le> 68 then py_int g + 2000 else py_int g + 1900)
                  | None \<Rightarrow> 1900));
          month =
            (case map_of cs (of_char CHR ''m'') of
               Some g \<Rightarrow> py_int g
             | None \<Rightarrow>
                 (case map_of cs (of_char CHR ''B'') of
                    Some g \<Rightarrow> index_of (map str f_month) (lower g) + 1
                  | None \<Rightarrow>
                      (case map_of cs (of_char CHR ''b'') of
                         Some g \<Rightarrow> index_of (map str a_month) (lower g) + 1
                       | None \<Rightarrow> 1)));
          day = (case map_of cs (of_char CHR ''d'') of Some g \<Rightarrow> py_int g | None \<Rightarrow> 1)
      in (year, month, day))"

text \<open>\<open>None\<close> is the ValueError of \<^verbatim>\<open>strptime\<close>: no match, unconverted data, or a
  date that the calendar does not have.\<close>

definition strptime :: "ustr \<Rightarrow> string \<Rightarrow> date option" where
  "strptime date_str fmt =
     (case re_match True False (fmt_rx fmt) date_str of
        None \<Rightarrow> None
      | Some (s, (p, rest, cs)) \<Rightarrow>
          if rest \<noteq> [] then None
          else if valid_date (date_fields cs) then Some (date_fields cs) else None)"

fun zpad :: "nat \<Rightarrow> nat \<Rightarrow> ustr" where
  "zpad 0 n = []"
| "zpad (Suc w) n = zpad w (n div 10) @ [48 + n mod 10]"

text \<open>The decimal numeral of a number, without padding.\<close>

function dec_str :: "nat \<Rightarrow> ustr" where
  "dec_str n = (if n < 10 then [48 + n] else dec_str (n div 10) @ [48 + n mod 10])"
  by pat_completeness auto
termination
  by (relation "measure id") auto

declare dec_str.simps [simp del]

text \<open>
  \<^verbatim>\<open>strftime('%Y-%m-%d')\<close> as the C library under CPython renders it on Linux:
  \<^verbatim>\<open>%Y\<close> is the year as a plain decimal number, without padding (the year 999 gives
  \<^verbatim>\<open>999\<close>); \<^verbatim>\<open>%m\<close> and \<^verbatim>\<open>%d\<close> are padded to two digits.
\<close>

definition strftime :: "date \<Rightarrow> ustr" where
  "strftime dt = (case dt of (y, m, d) \<Rightarrow> dec_str y @ [45] @ zpad 2 m @ [45] @ zpad 2 d)"

definition date_formats :: "string list" where
  "date_formats = [''%d/%m/%Y'', ''%d-%m-%Y'', ''%d/%m/%y'', ''%d-%m-%y'',
                   ''%Y-%m-%d'', ''%Y/%m/%d'',
                   ''%d %b %Y'', ''%d %B %Y'',
                   ''%b %d, %Y'', ''%B %d, %Y'']"

text \<open>The inner loop of \<^verbatim>\<open>extract_date\<close>: the first format that parses.\<close>

fun parse_date :: "ustr \<Rightarrow> string list \<Rightarrow> ustr option" where
  "parse_date date_str [] = None"
| "parse_date date_str (fmt # fmts) =
     (case strptime date_str fmt of
        Some parsed_date \<Rightarrow> Some (strftime parsed_date)
      | None \<Rightarrow> parse_date date_str fmts)"

text \<open>The outer loop over the date patterns; \<open>now\<close> is the date of
  \<^verbatim>\<open>datetime.now()\<close>.\<close>

fun date_loop :: "rx list \<Rightarrow> date \<Rightarrow> ustr \<Rightarrow> ustr" where
  "date_loop [] now text = strftime now"
| "date_loop (pattern # patterns) now text =
     (case re_search True False pattern text of
        None \<Rightarrow> date_loop patterns now text
      | Some m \<Rightarrow>
          (case parse_date (matched m) date_formats of
             Some d \<Rightarrow> d
           | None \<Rightarrow> date_loop patterns now text))"

definition extract_date :: "date \<Rightarrow> ustr \<Rightarrow> ustr" where
  "extract_date now text = date_loop date_patterns now text"

section \<open>DescriptionResolver\<close>

definition known_merchants :: "ustr list" where
  "known_merchants = map str
     [''Zomato'', ''Swiggy'', ''Uber'', ''Ola'', ''Amazon'', ''Flipkart'', ''Myntra'', ''Ajio'',
      ''Starbucks'', ''McDonalds'', ''KFC'', ''Dominos'', ''Pizza Hut'', ''Burger King'',
      ''Subway'', ''Dmart'', ''BigBasket'', ''Blinkit'', ''Zepto'', ''Dunzo'']"

definition transaction_types :: "(ustr \<times> ustr) list" where
  "transaction_types = map (\<lambda>(k, d). (str k, str d))
     [(''payment'', ''Payment Transaction''), (''transfer'', ''Fund Transfer''),
      (''deposit'', ''Deposit''), (''withdrawal'', ''Withdrawal''),
      (''purchase'', ''Purchase''), (''refund'', ''Refund''), (''food'', ''Food Order''),
      (''cab'', ''Cab Service''), (''trip'', ''Trip''), (''ride'', ''Ride'')]"

text \<open>Strategy 2: the merchant patterns under IGNORECASE and MULTILINE.\<close>

fun merchant_loop :: "rx list \<Rightarrow> ustr \<Rightarrow> ustr option" where
  "merchant_loop [] text = None"
| "merchant_loop (pattern # patterns) text =
     (case re_search True True pattern text of
        None \<Rightarrow> merchant_loop patterns text
      | Some m \<Rightarrow>
          (let merchant = collapse_ws (strip (group_of 1 m))
           in if 3 < length merchant \<and> length merchant < 50 then Some merchant
              else merchant_loop patterns text))"

text \<open>Strategy 3: the first meaningful line.\<close>

fun line_loop :: "ustr list \<Rightarrow> ustr option" where
  "line_loop [] = None"
| "line_loop (l # ls) =
     (if length l < 4 \<or> isdigit l then line_loop ls
      else if list_ex (\<lambda>pattern. re_search False False pattern l \<noteq> None) date_patterns \<and>
              length l < 15 then line_loop ls
      else if has_keyword ignore_keywords (lower l) then line_loop ls
      else if 4 < length (collapse_ws l) then Some (take 100 (collapse_ws l))
      else line_loop ls)"

definition extract_description :: "ustr \<Rightarrow> ustr" where
  "extract_description text =
     (case find (\<lambda>merchant. contains (lower merchant) (lower text)) known_merchants of
        Some merchant \<Rightarrow> merchant
      | None \<Rightarrow>
          (case merchant_loop merchant_patterns text of
             Some merchant \<Rightarrow> merchant
           | None \<Rightarrow>
               (case line_loop (take 5 (filter (\<lambda>l. l \<noteq> []) (map strip (split_on 10 text)))) of
                  Some cleaned \<Rightarrow> cleaned
                | None \<Rightarrow>
                    (case find (\<lambda>(keyword, description). contains keyword (lower text))
                            transaction_types of
                       Some (keyword, description) \<Rightarrow> description
                     | None \<Rightarrow> str ''Transaction''))))"

section \<open>TypeClassifier\<close>

definition income_keywords :: "ustr list" where
  "income_keywords = map str
     [''credit'', ''credited'', ''received'', ''deposit'', ''deposited'',
      ''salary'', ''payment received'', ''refund'', ''cashback'',
      ''transferred to your account'', ''added to'', ''income'']"

definition expense_keywords :: "ustr list" where
  "expense_keywords = map str
     [''debit'', ''debited'', ''paid'', ''payment'', ''purchase'',
      ''withdrawn'', ''transferred from your account'', ''expense'',
      ''bill'', ''invoice'', ''order'', ''booking'']"

text \<open>\<^verbatim>\<open>sum(1 for keyword in keywords if keyword in text_lower)\<close>\<close>

definition score :: "ustr list \<Rightarrow> ustr \<Rightarrow> nat" where
  "score keywords text_lower =
     sum_list (map (\<lambda>keyword. if contains keyword text_lower then 1 else 0) keywords)"

definition detect_transaction_type :: "ustr \<Rightarrow> ustr \<Rightarrow> ustr" where
  "detect_transaction_type text description =
     (if score expense_keywords (lower text) < score income_keywords (lower text)
      then str ''income'' else str ''expense'')"

section \<open>ExtractionOrchestrator\<close>

text \<open>
  What \<^verbatim>\<open>extract_transactions\<close> gets from its environment: the upload cannot be opened
  as an image, or it can and the two recognition passes give their texts. \<open>first_pass\<close> is the
  result of \<^verbatim>\<open>extract_text\<close>; \<open>raw_pass\<close> is the result of recognition on the raw
  image, \<open>None\<close> when that call raises.
\<close>

datatype upload = Unreadable | Image (first_pass: ustr) (raw_pass: "ustr option")

record transaction =
  date :: ustr
  description :: ustr
  amount :: rat
  type :: ustr
  raw_text :: ustr

text \<open>\<^verbatim>\<open>not amount\<close>: no amount, or the amount zero.\<close>

definition falsy :: "rat option \<Rightarrow> bool" where
  "falsy a = (a = None \<or> a = Some 0)"

text \<open>The text and the amount after the two tries. The second try replaces the text
  before it resolves the amount; an exception of the second try is caught.\<close>

definition second_try :: "ustr \<Rightarrow> rat option \<Rightarrow> ustr option \<Rightarrow> ustr \<times> rat option" where
  "second_try text amount1 raw =
     (if falsy amount1
      then (case raw of
              None \<Rightarrow> (text, amount1)
            | Some text_raw \<Rightarrow>
                (case extract_total_amount text_raw of
                   Inl e \<Rightarrow> (text_raw, amount1)
                 | Inr amount2 \<Rightarrow> (text_raw, amount2)))
      else (text, amount1))"

definition extract_transactions :: "date \<Rightarrow> upload \<Rightarrow> exn + transaction list" where
  "extract_transactions now image_file =
     (case image_file of
        Unreadable \<Rightarrow> Inr []
      | Image text1 raw \<Rightarrow>
          seq_exn (extract_total_amount text1) (\<lambda>amount1.
            case second_try text1 amount1 raw of
              (text, found) \<Rightarrow>
                if text = [] \<or> length (strip text) < 5 then Inr []
                else (case found of
                        None \<Rightarrow> Inr []
                      | Some a \<Rightarrow>
                          if a = 0 then Inr []
                          else Inr [\<lparr>date = extract_date now text,
                                     description = extract_description text,
                                     amount = a,
                                     type = detect_transaction_type text (extract_description text),
                                     raw_text = take 500 text\<rparr>])))"

section \<open>Notions used in the statements and proofs\<close>

text \<open>A keyword occurs in a text case-insensitively when some contiguous part of the text
  lower-cases to it; \<open>found_keywords\<close> is the set of the keywords of a list that do.\<close>

definition occurs_in :: "ustr \<Rightarrow> ustr \<Rightarrow> bool" where
  "occurs_in k text = (\<exists>a u b. text = a @ u @ b \<and> lower u = k)"

definition found_keywords :: "ustr list \<Rightarrow> ustr \<Rightarrow> ustr set" where
  "found_keywords keywords text = {k \<in> set keywords. occurs_in k text}"

text \<open>\<open>rx_chars P ic r\<close>: the pattern consumes only characters that satisfy \<open>P\<close>;
  \<open>grp_chars P ic r\<close>: so does every group of the pattern.\<close>

fun rx_chars :: "(nat \<Rightarrow> bool) \<Rightarrow> bool \<Rightarrow> rx \<Rightarrow> bool" where
  "rx_chars P ic (Ch items) = (\<forall>c. cls_match ic items c \<longrightarrow> P c)"
| "rx_chars P ic (Seq a b) = (rx_chars P ic a \<and> rx_chars P ic b)"
| "rx_chars P ic (Alt a b) = (rx_chars P ic a \<and> rx_chars P ic b)"
| "rx_chars P ic (Rep m n r) = rx_chars P ic r"
| "rx_chars P ic (Grp i r) = rx_chars P ic r"
| "rx_chars P ic _ = True"

fun grp_chars :: "(nat \<Rightarrow> bool) \<Rightarrow> bool \<Rightarrow> rx \<Rightarrow> bool" where
  "grp_chars P ic (Seq a b) = (grp_chars P ic a \<and> grp_chars P ic b)"
| "grp_chars P ic (Alt a b) = (grp_chars P ic a \<and> grp_chars P ic b)"
| "grp_chars P ic (Rep m n r) = grp_chars P ic r"
| "grp_chars P ic (Grp i r) = (rx_chars P ic r \<and> grp_chars P ic r)"
| "grp_chars P ic _ = True"

definition consumed :: "mstate \<Rightarrow> mstate \<Rightarrow> ustr \<Rightarrow> bool" where
  "consumed st st' w = (fst (snd st) = w @ fst (snd st') \<and>
     fst st' = (if w = [] then fst st else Some (last w)))"

definition caps_ok :: "(nat \<Rightarrow> bool) \<Rightarrow> mstate \<Rightarrow> bool" where
  "caps_ok P st = (\<forall>(i, g)\<in>set (snd (snd st)). \<forall>c\<in>set g. P c)"

definition amt_char :: "nat \<Rightarrow> bool" where
  "amt_char c = (is_digit c \<or> c = 44 \<or> c = 46)"

text \<open>A positional decimal numeral with a point: digits, a point, digits, such as
  \<^verbatim>\<open>1234.56\<close> or \<^verbatim>\<open>450.0\<close>.\<close>

definition positional :: "ustr \<Rightarrow> bool" where
  "positional s =
     (\<exists>a b. s = a @ [46] @ b \<and> a \<noteq> [] \<and> list_all is_digit a \<and> list_all is_digit b)"

text \<open>The shape \<^verbatim>\<open>YYYY-MM-DD\<close>: four digits, two digits and two digits around hyphens.\<close>

fun iso_date :: "ustr \<Rightarrow> bool" where
  "iso_date [y1, y2, y3, y4, h1, m1, m2, h2, d1, d2] =
     (is_digit y1 \<and> is_digit y2 \<and> is_digit y3 \<and> is_digit y4 \<and> h1 = 45 \<and>
      is_digit m1 \<and> is_digit m2 \<and> h2 = 45 \<and> is_digit d1 \<and> is_digit d2)"
| "iso_date s = False"

text \<open>A pattern matches in the text, and its match parses under none of the formats.\<close>

definition unparseable :: "rx \<Rightarrow> ustr \<Rightarrow> bool" where
  "unparseable pattern text =
     (case re_search True False pattern text of
        None \<Rightarrow> False
      | Some m \<Rightarrow> parse_date (matched m) date_formats = None)"

text \<open>Lines joined by line feeds, as a recognized text has them.\<close>

fun unlines :: "ustr list \<Rightarrow> ustr" where
  "unlines [] = []"
| "unlines [l] = l"
| "unlines (l # ls) = l @ [10] @ unlines ls"

definition receipt :: ustr where
  "receipt = unlines [str ''ABC CAFE'', str ''Date: 12/03/2024'', str ''Subtotal: 450.00'',
                      str ''CGST: 20.00'', str ''Total: 495.00'']"

definition receipt_rs :: ustr where
  "receipt_rs = unlines [str ''ABC CAFE'', str ''Date: 12/03/2024'', str ''Subtotal: 450.00'',
                         str ''CGST: 20.00'', str ''Total: Rs 495.00'']"

text \<open>The text of record after the two tries.\<close>

definition final_text :: "ustr \<Rightarrow> ustr option \<Rightarrow> ustr" where
  "final_text text1 raw =
     (case extract_total_amount text1 of
        Inl e \<Rightarrow> text1
      | Inr amount1 \<Rightarrow> fst (second_try text1 amount1 raw))"

definition non_space_count :: "ustr \<Rightarrow> nat" where
  "non_space_count s = length (filter (\<lambda>c. \<not> is_space c) s)"

text \<open>A candidate is a best one of a list when no candidate of the list has a higher
  priority.\<close>

definition best_in :: "cand list \<Rightarrow> cand \<Rightarrow> bool" where
  "best_in cs c = (\<forall>d\<in>set cs. priority d \<le> priority c)"

text \<open>The line holds one of the two phrases that raise a candidate to priority 200.\<close>

definition top_phrase :: "ustr \<Rightarrow> bool" where
  "top_phrase l =
     (contains (str ''grand total'') (lower l) \<or> contains (str ''net amount'') (lower l))"

text \<open>
  A line whose only numeric content is a bare decimal with fewer than four integer digits:
  one to three digits, a point and two digits, with no digit before or after.
\<close>

definition bare_decimal_line :: "ustr \<Rightarrow> bool" where
  "bare_decimal_line l =
     (\<exists>pre ds e1 e2 post.
        l = pre @ ds @ [46, e1, e2] @ post \<and> ds \<noteq> [] \<and> length ds \<le> 3 \<and>
        list_all is_digit ds \<and> is_digit e1 \<and> is_digit e2 \<and>
        list_all (\<lambda>c. \<not> is_digit c) pre \<and> list_all (\<lambda>c. \<not> is_digit c) post)"

text \<open>No currency marker: neither \<^verbatim>\<open>rs\<close> nor \<^verbatim>\<open>inr\<close> in any case, nor
  the rupee sign.\<close>

definition no_marker :: "ustr \<Rightarrow> bool" where
  "no_marker l =
     (\<not> contains (str ''rs'') (lower l) \<and> \<not> contains (str ''inr'') (lower l) \<and> rupee \<notin> set l)"

text \<open>Scanners used in the proofs: \<open>run4 n s\<close> finds four digits in a row, \<open>n\<close> digits
  having just been read; \<open>dcd k s\<close> finds a digit, a comma and a digit in a row, with
  \<open>k = 1\<close> after a digit and \<open>k = 2\<close> after a digit and a comma.\<close>

fun run4 :: "nat \<Rightarrow> ustr \<Rightarrow> bool" where
  "run4 n [] = False"
| "run4 n (c # s) = (if is_digit c then (3 \<le> n \<or> run4 (n + 1) s) else run4 0 s)"

fun dcd :: "nat \<Rightarrow> ustr \<Rightarrow> bool" where
  "dcd k [] = False"
| "dcd k (c # s) =
     (if is_digit c then (k = 2 \<or> dcd 1 s)
      else if c = 44 \<and> k = 1 then dcd 2 s else dcd 0 s)"

text \<open>The text at a position starts with a currency marker of the amount patterns.\<close>

definition marker_at :: "ustr \<Rightarrow> bool" where
  "marker_at s =
     ((\<exists>c1 c2 t. s = c1 # c2 # t \<and> lower_cp c1 = 114 \<and> lower_cp c2 = 115)
      \<or> (\<exists>t. s = rupee # t)
      \<or> (\<exists>c1 c2 c3 t. s = c1 # c2 # c3 # t \<and> lower_cp c1 = 105 \<and> lower_cp c2 = 110 \<and>
            lower_cp c3 = 114))"

text \<open>Every character of the line is an ASCII character.\<close>

definition ascii_only :: "ustr \<Rightarrow> bool" where
  "ascii_only l = list_all (\<lambda>c. c < 128) l"

section \<open>Properties of the matcher\<close>

lemma ms_Rep_unfold:
  "n \<noteq> Some 0 \<Longrightarrow> ms ic ml (Rep m n r) (p, s, cs) =
     concat (map (ms ic ml (Rep (m - 1) (dec_bound n) r))
              (filter (\<lambda>st'. length (fst (snd st')) < length s) (ms ic ml r (p, s, cs))))
     @ (if m = 0 then [(p, s, cs)] else [])"
  by (subst ms.simps(5)) simp

lemma ms_Rep_zero:
  "ms ic ml (Rep m (Some 0) r) (p, s, cs) = (if m = 0 then [(p, s, cs)] else [])"
  by (subst ms.simps(5)) simp

lemma ms_Rep_cases:
  assumes "st' \<in> set (ms ic ml (Rep m n r) (p, s, cs))"
  obtains (stop) "m = 0" "st' = (p, s, cs)"
  | (iter) st1 where "n \<noteq> Some 0" "st1 \<in> set (ms ic ml r (p, s, cs))"
      "length (fst (snd st1)) < length s"
      "st' \<in> set (ms ic ml (Rep (m - 1) (dec_bound n) r) st1)"
proof (cases "n = Some 0")
  case True
  with assms have "m = 0 \<and> st' = (p, s, cs)"
    by (simp add: ms_Rep_zero split: if_splits)
  then show ?thesis using stop by blast
next
  case False
  from assms have "st' \<in> set (concat (map (ms ic ml (Rep (m - 1) (dec_bound n) r))
              (filter (\<lambda>st'. length (fst (snd st')) < length s) (ms ic ml r (p, s, cs)))))
     \<or> (m = 0 \<and> st' = (p, s, cs))"
    unfolding ms_Rep_unfold[OF False] by (auto split: if_splits)
  then show ?thesis
  proof
    assume "st' \<in> set (concat (map (ms ic ml (Rep (m - 1) (dec_bound n) r))
              (filter (\<lambda>st'. length (fst (snd st')) < length s) (ms ic ml r (p, s, cs)))))"
    then obtain st1 where "st1 \<in> set (ms ic ml r (p, s, cs))" "length (fst (snd st1)) < length s"
      "st' \<in> set (ms ic ml (Rep (m - 1) (dec_bound n) r) st1)"
      unfolding set_concat set_map set_filter by blast
    then show ?thesis using iter False by blast
  next
    assume "m = 0 \<and> st' = (p, s, cs)"
    then show ?thesis using stop by blast
  qed
qed

lemma ms_suffix:
  "st' \<in> set (ms ic ml r st) \<Longrightarrow> \<exists>w. fst (snd st) = w @ fst (snd st')"
proof (induction ic ml r st arbitrary: st' rule: ms.induct)
  case (1 ic ml st)
  then show ?case by simp
next
  case (2 ic ml items p s cs)
  then show ?case by (auto split: list.splits if_splits)
next
  case (3 ic ml a b st)
  from "3.prems" obtain st1 where a: "st1 \<in> set (ms ic ml a st)" and b: "st' \<in> set (ms ic ml b st1)"
    by auto
  from "3.IH"(1)[OF a] obtain w1 where w1: "fst (snd st) = w1 @ fst (snd st1)" by blast
  from "3.IH"(2)[OF a b] obtain w2 where w2: "fst (snd st1) = w2 @ fst (snd st')" by blast
  show ?case using w1 w2 by auto
next
  case (4 ic ml a b st)
  from "4.prems" have "st' \<in> set (ms ic ml a st) \<or> st' \<in> set (ms ic ml b st)" by simp
  then show ?case using "4.IH" by blast
next
  case (5 ic ml m n r p s cs)
  from "5.prems" show ?case
  proof (cases rule: ms_Rep_cases)
    case stop
    then show ?thesis by simp
  next
    case (iter st1)
    from "5.IH"(1)[OF iter(1,2)] obtain w1 where w1: "s = w1 @ fst (snd st1)" by auto
    have "st1 \<in> set (filter (\<lambda>st'. length (fst (snd st')) < length s) (ms ic ml r (p, s, cs)))"
      using iter by simp
    from "5.IH"(2)[OF iter(1) this iter(4)] obtain w2 where w2: "fst (snd st1) = w2 @ fst (snd st')"
      by auto
    show ?thesis using w1 w2 by auto
  qed
next
  case (6 ic ml i r p s cs)
  from "6.prems" obtain p' s' cs' where m: "(p', s', cs') \<in> set (ms ic ml r (p, s, cs))"
    and st': "st' = (p', s', (i, take (length s - length s') s) # cs')"
    by auto
  from "6.IH"[OF m] show ?case using st' by simp
next
  case (7 ic ml p s cs)
  then show ?case by (auto split: if_splits)
next
  case (8 ic ml p s cs)
  then show ?case by (auto split: if_splits)
next
  case (9 ic ml p s cs)
  then show ?case by (auto split: if_splits)
qed

lemma consumed_refl: "consumed st st []"
  by (simp add: consumed_def)

lemma consumed_trans:
  "consumed st st1 w1 \<Longrightarrow> consumed st1 st' w2 \<Longrightarrow> consumed st st' (w1 @ w2)"
  by (auto simp: consumed_def)

lemma ms_consumed:
  "st' \<in> set (ms ic ml r st) \<Longrightarrow> rx_chars P ic r \<Longrightarrow> \<exists>w. consumed st st' w \<and> (\<forall>c\<in>set w. P c)"
proof (induction ic ml r st arbitrary: st' rule: ms.induct)
  case (1 ic ml st)
  then show ?case using consumed_refl[of st] by auto
next
  case (2 ic ml items p s cs)
  from "2.prems" obtain c s' where s: "s = c # s'" and c: "cls_match ic items c"
    and st': "st' = (Some c, s', cs)"
    by (auto split: list.splits if_splits)
  have "consumed (p, s, cs) st' [c]" using s st' by (simp add: consumed_def)
  moreover have "\<forall>x\<in>set [c]. P x" using c "2.prems"(2) by simp
  ultimately show ?case by blast
next
  case (3 ic ml a b st)
  from "3.prems" obtain st1 where a: "st1 \<in> set (ms ic ml a st)" and b: "st' \<in> set (ms ic ml b st1)"
    by auto
  from "3.IH"(1)[OF a] "3.prems"(2) obtain w1 where w1: "consumed st st1 w1" "\<forall>c\<in>set w1. P c"
    by auto
  from "3.IH"(2)[OF a b] "3.prems"(2) obtain w2 where w2: "consumed st1 st' w2" "\<forall>c\<in>set w2. P c"
    by auto
  have "consumed st st' (w1 @ w2)" using w1 w2 by (rule_tac consumed_trans)
  moreover have "\<forall>c\<in>set (w1 @ w2). P c" using w1 w2 by auto
  ultimately show ?case by blast
next
  case (4 ic ml a b st)
  from "4.prems" have "st' \<in> set (ms ic ml a st) \<or> st' \<in> set (ms ic ml b st)" by simp
  moreover from "4.prems" have "rx_chars P ic a" "rx_chars P ic b" by simp_all
  ultimately show ?case using "4.IH" by blast
next
  case (5 ic ml m n r p s cs)
  from "5.prems"(1) show ?case
  proof (cases rule: ms_Rep_cases)
    case stop
    then show ?thesis using consumed_refl[of "(p, s, cs)"] by auto
  next
    case (iter st1)
    from "5.IH"(1)[OF iter(1,2)] "5.prems"(2)
    obtain w1 where w1: "consumed (p, s, cs) st1 w1" "\<forall>c\<in>set w1. P c" by auto
    have "st1 \<in> set (filter (\<lambda>st'. length (fst (snd st')) < length s) (ms ic ml r (p, s, cs)))"
      using iter by simp
    from "5.IH"(2)[OF iter(1) this iter(4)] "5.prems"(2)
    obtain w2 where w2: "consumed st1 st' w2" "\<forall>c\<in>set w2. P c" by auto
    have "consumed (p, s, cs) st' (w1 @ w2)" using w1 w2 by (rule_tac consumed_trans)
    moreover have "\<forall>c\<in>set (w1 @ w2). P c" using w1 w2 by auto
    ultimately show ?thesis by blast
  qed
next
  case (6 ic ml i r p s cs)
  from "6.prems" obtain p' s' cs' where m: "(p', s', cs') \<in> set (ms ic ml r (p, s, cs))"
    and st': "st' = (p', s', (i, take (length s - length s') s) # cs')"
    by auto
  from "6.IH"[OF m] "6.prems"(2) obtain w where "consumed (p, s, cs) (p', s', cs') w" "\<forall>c\<in>set w. P c"
    by auto
  then show ?case using st' by (auto simp: consumed_def)
next
  case (7 ic ml p s cs)
  then show ?case using consumed_refl[of "(p, s, cs)"] by (auto split: if_splits)
next
  case (8 ic ml p s cs)
  then show ?case using consumed_refl[of "(p, s, cs)"] by (auto split: if_splits)
next
  case (9 ic ml p s cs)
  then show ?case using consumed_refl[of "(p, s, cs)"] by (auto split: if_splits)
qed

lemma ms_caps:
  "st' \<in> set (ms ic ml r st) \<Longrightarrow> grp_chars P ic r \<Longrightarrow> caps_ok P st \<Longrightarrow> caps_ok P st'"
proof (induction ic ml r st arbitrary: st' rule: ms.induct)
  case (1 ic ml st)
  then show ?case by simp
next
  case (2 ic ml items p s cs)
  from "2.prems"(1) obtain c s' where "st' = (Some c, s', cs)"
    by (auto split: list.splits if_splits)
  then show ?case using "2.prems"(3) by (simp add: caps_ok_def)
next
  case (3 ic ml a b st)
  from "3.prems" obtain st1 where a: "st1 \<in> set (ms ic ml a st)" and b: "st' \<in> set (ms ic ml b st1)"
    by auto
  from "3.IH"(1)[OF a] "3.prems" have "caps_ok P st1" by simp
  with "3.IH"(2)[OF a b] "3.prems" show ?case by simp
next
  case (4 ic ml a b st)
  from "4.prems" have "st' \<in> set (ms ic ml a st) \<or> st' \<in> set (ms ic ml b st)" by simp
  moreover from "4.prems" have "grp_chars P ic a" "grp_chars P ic b" by simp_all
  ultimately show ?case using "4.IH" "4.prems"(3) by blast
next
  case (5 ic ml m n r p s cs)
  from "5.prems"(1) show ?case
  proof (cases rule: ms_Rep_cases)
    case stop
    then show ?thesis using "5.prems" by simp
  next
    case (iter st1)
    from "5.IH"(1)[OF iter(1,2)] "5.prems" have c1: "caps_ok P st1" by simp
    have "st1 \<in> set (filter (\<lambda>st'. length (fst (snd st')) < length s) (ms ic ml r (p, s, cs)))"
      using iter by simp
    from "5.IH"(2)[OF iter(1) this iter(4)] "5.prems" c1 show ?thesis by simp
  qed
next
  case (6 ic ml i r p s cs)
  from "6.prems" obtain p' s' cs' where m: "(p', s', cs') \<in> set (ms ic ml r (p, s, cs))"
    and st': "st' = (p', s', (i, take (length s - length s') s) # cs')"
    by auto
  from "6.IH"[OF m] "6.prems" have c: "caps_ok P (p', s', cs')" by simp
  from ms_consumed[OF m, of P] "6.prems"(2) obtain w where w: "consumed (p, s, cs) (p', s', cs') w"
    "\<forall>c\<in>set w. P c" by auto
  then have "take (length s - length s') s = w" by (simp add: consumed_def)
  then show ?case using c w st' by (simp add: caps_ok_def)
next
  case (7 ic ml p s cs)
  then show ?case by (auto split: if_splits)
next
  case (8 ic ml p s cs)
  then show ?case by (auto split: if_splits)
next
  case (9 ic ml p s cs)
  then show ?case by (auto split: if_splits)
qed

section \<open>TypeClassifier: the keyword counts decide\<close>

lemma starts_with_iff: "starts_with k s \<longleftrightarrow> (\<exists>b. s = k @ b)"
  by (induction k s rule: starts_with.induct) auto

lemma contains_iff: "contains k s \<longleftrightarrow> (\<exists>a b. s = a @ k @ b)"
proof (induction s)
  case Nil
  then show ?case by auto
next
  case (Cons c s)
  show ?case
  proof
    assume "contains k (c # s)"
    then consider "starts_with k (c # s)" | "contains k s" by auto
    then show "\<exists>a b. c # s = a @ k @ b"
    proof cases
      case 1
      then obtain b where "c # s = k @ b" using starts_with_iff by blast
      then have "c # s = [] @ k @ b" by simp
      then show ?thesis by blast
    next
      case 2
      then obtain a b where "s = a @ k @ b" using Cons.IH by blast
      then have "c # s = (c # a) @ k @ b" by simp
      then show ?thesis by blast
    qed
  next
    assume "\<exists>a b. c # s = a @ k @ b"
    then obtain a b where ab: "c # s = a @ k @ b" by blast
    show "contains k (c # s)"
    proof (cases a)
      case Nil
      with ab have "starts_with k (c # s)" using starts_with_iff by auto
      then show ?thesis by simp
    next
      case (Cons x a')
      with ab have "s = a' @ k @ b" by simp
      then have "contains k s" using Cons.IH by blast
      then show ?thesis by simp
    qed
  qed
qed

lemma contains_lower_iff: "contains k (lower text) \<longleftrightarrow> occurs_in k text"
proof
  assume "contains k (lower text)"
  then obtain a b where "map lower_cp text = a @ k @ b"
    unfolding contains_iff lower_def by blast
  then obtain ta tr where t1: "text = ta @ tr" "a = map lower_cp ta" "k @ b = map lower_cp tr"
    using map_eq_append_conv[of lower_cp "text" a "k @ b"] by blast
  from t1(3) obtain u tb where "tr = u @ tb" "k = map lower_cp u" "b = map lower_cp tb"
    using map_eq_append_conv[of lower_cp tr k b] by metis
  with t1 show "occurs_in k text" unfolding occurs_in_def lower_def by blast
next
  assume "occurs_in k text"
  then obtain a u b where "text = a @ u @ b" "lower u = k" unfolding occurs_in_def by blast
  then have "lower text = lower a @ k @ lower b" by (simp add: lower_def)
  then show "contains k (lower text)" unfolding contains_iff by blast
qed

lemma score_card:
  "distinct ks \<Longrightarrow> score ks (lower text) = card (found_keywords ks text)"
proof (induction ks)
  case Nil
  then show ?case by (simp add: score_def found_keywords_def)
next
  case (Cons k ks)
  have fin: "finite (found_keywords ks text)" by (simp add: found_keywords_def)
  have notin: "k \<notin> found_keywords ks text" using Cons.prems by (simp add: found_keywords_def)
  have ih: "score ks (lower text) = card (found_keywords ks text)" using Cons by simp
  show ?case
  proof (cases "occurs_in k text")
    case True
    then have "found_keywords (k # ks) text = insert k (found_keywords ks text)"
      by (auto simp: found_keywords_def)
    then show ?thesis using True fin notin ih by (simp add: score_def contains_lower_iff)
  next
    case False
    then have "found_keywords (k # ks) text = found_keywords ks text"
      by (auto simp: found_keywords_def)
    then show ?thesis using False ih by (simp add: score_def contains_lower_iff)
  qed
qed

lemma distinct_income: "distinct income_keywords"
  by (simp add: income_keywords_def str_def)

lemma distinct_expense: "distinct expense_keywords"
  by (simp add: expense_keywords_def str_def)

text \<open>
  Claim C7. For every recognized text the classifier returns income exactly when more income
  keywords than expense keywords occur in the text as case-insensitive substrings, and expense
  otherwise; a text with equal counts is an expense, and no third value is ever returned.
\<close>

theorem type_classifier_counts:
  "detect_transaction_type text desc =
     (if card (found_keywords expense_keywords text) < card (found_keywords income_keywords text)
      then str ''income'' else str ''expense'')
   \<and> (card (found_keywords income_keywords text) = card (found_keywords expense_keywords text)
        \<longrightarrow> detect_transaction_type text desc = str ''expense'')
   \<and> detect_transaction_type text desc \<in> {str ''income'', str ''expense''}"
  by (simp add: detect_transaction_type_def score_card distinct_income distinct_expense)

theorem type_classifier_counts_witness:
  "card (found_keywords income_keywords (str ''Paid, credit'')) =
     card (found_keywords expense_keywords (str ''Paid, credit''))
   \<and> detect_transaction_type (str ''Paid, credit'') (str ''Transaction'') = str ''expense''"
proof -
  have "score income_keywords (lower (str ''Paid, credit'')) = 1"
    by (simp add: score_def income_keywords_def str_def lower_def lower_cp_def)
  then have i: "card (found_keywords income_keywords (str ''Paid, credit'')) = 1"
    by (simp only: score_card[OF distinct_income])
  have "score expense_keywords (lower (str ''Paid, credit'')) = 1"
    by (simp add: score_def expense_keywords_def str_def lower_def lower_cp_def)
  then have e: "card (found_keywords expense_keywords (str ''Paid, credit'')) = 1"
    by (simp only: score_card[OF distinct_expense])
  show ?thesis
    using type_classifier_counts[of "str ''Paid, credit''" "str ''Transaction''"] i e by simp
qed

lemma search_caps:
  "search_from ic ml r p s = Some (s0, st') \<Longrightarrow> grp_chars P ic r \<Longrightarrow> caps_ok P st'"
proof (induction s arbitrary: p)
  case Nil
  then obtain sts where "ms ic ml r (p, [], []) = st' # sts"
    by (auto split: list.splits)
  then have "st' \<in> set (ms ic ml r (p, [], []))" by simp
  then show ?case using ms_caps[of st' ic ml r "(p, [], [])" P] Nil.prems(2)
    by (simp add: caps_ok_def)
next
  case (Cons c s)
  show ?case
  proof (cases "ms ic ml r (p, c # s, [])")
    case Nil
    with Cons.prems have "search_from ic ml r (Some c) s = Some (s0, st')" by simp
    then show ?thesis using Cons.IH Cons.prems(2) by blast
  next
    case (Cons st sts)
    with Cons.prems have "st' = st" by simp
    with Cons have "st' \<in> set (ms ic ml r (p, c # s, []))" by simp
    then show ?thesis using ms_caps[of st' ic ml r "(p, c # s, [])" P] Cons.prems(2)
      by (simp add: caps_ok_def)
  qed
qed

lemma group_of_chars:
  assumes "caps_ok P (p', s', cs)"
  shows "\<forall>c\<in>set (group_of i (s0, (p', s', cs))). P c"
proof (cases "map_of cs i")
  case None
  then show ?thesis by (simp add: group_of_def)
next
  case (Some g)
  then have "(i, g) \<in> set cs" by (rule map_of_SomeD)
  then have "\<forall>c\<in>set g. P c" using assms by (auto simp: caps_ok_def)
  then show ?thesis using Some by (simp add: group_of_def)
qed

lemma findall_chars:
  "g \<in> set (findall_from ic ml r p s) \<Longrightarrow> grp_chars P ic r \<Longrightarrow> \<forall>c\<in>set g. P c"
proof (induction ic ml r p s arbitrary: g rule: findall_from.induct)
  case (1 ic ml r p s)
  show ?case
  proof (cases "search_from ic ml r p s")
    case None
    with "1.prems" show ?thesis by (simp add: findall_from.simps)
  next
    case (Some m)
    obtain s0 p' s' cs where m: "m = (s0, (p', s', cs))" by (cases m) auto
    have ok: "caps_ok P (p', s', cs)" using search_caps Some m "1.prems"(2) by blast
    from "1.prems"(1) Some m have
      "g = group_of 1 (s0, (p', s', cs)) \<or>
       (length s' < length s0 \<and> length s' < length s \<and> g \<in> set (findall_from ic ml r p' s')) \<or>
       (\<not> (length s' < length s0 \<and> length s' < length s) \<and>
          (\<exists>c t. s0 = c # t \<and> length t < length s \<and> g \<in> set (findall_from ic ml r (Some c) t)))"
      by (subst (asm) findall_from.simps) (auto split: if_splits list.splits)
    then show ?thesis
    proof (elim disjE)
      assume "g = group_of 1 (s0, (p', s', cs))"
      then show ?thesis using group_of_chars[OF ok] by simp
    next
      assume a: "length s' < length s0 \<and> length s' < length s \<and> g \<in> set (findall_from ic ml r p' s')"
      show ?thesis
        using "1.IH"(1)[OF Some m[symmetric] refl refl _ _ "1.prems"(2)] a by blast
    next
      assume a: "\<not> (length s' < length s0 \<and> length s' < length s) \<and>
          (\<exists>c t. s0 = c # t \<and> length t < length s \<and> g \<in> set (findall_from ic ml r (Some c) t))"
      then obtain c t where ct: "s0 = c # t" "length t < length s"
        "g \<in> set (findall_from ic ml r (Some c) t)" by blast
      show ?thesis
        using "1.IH"(2)[OF Some m[symmetric] refl refl _ ct(1) ct(2) ct(3) "1.prems"(2)] a by blast
    qed
  qed
qed

lemmas rx_defs = dig_def spc_def chr_def rng_def one_def ropt_def rstar_def rplus_def seqs_def
  lit_def

lemma amount_shape_chars: "rx_chars amt_char True amount_shape"
  by (auto simp: amount_shape_def rx_defs cls_match_def amt_char_def is_digit_def
        lower_cp_def upper_cp_def split: if_splits)

lemma rx_chars_grp: "rx_chars P ic r \<Longrightarrow> grp_chars P ic r"
  by (induction r) auto

lemma amount_patterns_chars: "\<forall>pattern\<in>set amount_patterns. grp_chars amt_char True pattern"
  using amount_shape_chars rx_chars_grp[OF amount_shape_chars]
  by (auto simp: amount_patterns_def rx_defs cls_match_def amt_char_def is_digit_def
        lower_cp_def upper_cp_def split: if_splits)

lemma bank_patterns_chars: "\<forall>(n, pattern)\<in>set bank_patterns. grp_chars amt_char True pattern"
  using amount_shape_chars rx_chars_grp[OF amount_shape_chars]
  by (simp add: bank_patterns_def bank_tail_def rx_defs)

lemma amount_matches_chars: "g \<in> set (amount_matches l) \<Longrightarrow> \<forall>c\<in>set g. amt_char c"
  using amount_patterns_chars findall_chars
  by (fastforce simp: amount_matches_def re_findall_def)

lemma clean_amount_no_raise: "32 \<notin> set g \<Longrightarrow> \<exists>a. clean_amount g = Inr a"
  by (simp add: clean_amount_def clean_text_def seq_exn_def Let_def)

lemma clean_all_no_raise: "\<forall>g\<in>set gs. 32 \<notin> set g \<Longrightarrow> \<exists>vs. clean_all gs = Inr vs"
proof (induction gs)
  case Nil
  then show ?case by simp
next
  case (Cons g gs)
  then obtain a vs where "clean_amount g = Inr a" "clean_all gs = Inr vs"
    using clean_amount_no_raise[of g] by auto
  then show ?case by simp
qed

lemma amt_char_not_space: "amt_char c \<Longrightarrow> c \<noteq> 32"
  by (auto simp: amt_char_def is_digit_def)

lemma clean_matches_no_raise: "\<exists>vs. clean_all (amount_matches l) = Inr vs"
  using amount_matches_chars amt_char_not_space by (intro clean_all_no_raise) blast

lemma same_line_no_raise: "\<exists>cs. same_line_cands i l = Inr cs"
  using clean_matches_no_raise[of l] by (auto simp: same_line_cands_def seq_exn_def)

lemma next_line_no_raise: "\<exists>cs. next_line_cands i l = Inr cs"
  using clean_matches_no_raise[of l] by (auto simp: next_line_cands_def seq_exn_def)

lemma strategy1_no_raise: "\<exists>cs. strategy1 i ls = Inr cs"
proof (induction ls arbitrary: i)
  case Nil
  then show ?case by simp
next
  case (Cons l ls)
  obtain same where s: "same_line_cands i l = Inr same" using same_line_no_raise by blast
  obtain rest where r: "strategy1 (i + 1) ls = Inr rest" using Cons by blast
  show ?case
  proof (cases ls)
    case Nil
    then show ?thesis using s r by simp
  next
    case (Cons nl ls')
    obtain nxt where "next_line_cands (i + 1) nl = Inr nxt" using next_line_no_raise by blast
    then show ?thesis using s r Cons by simp
  qed
qed

lemma strategy2_no_raise: "\<exists>cs. strategy2 text = Inr cs"
proof -
  have "\<forall>g\<in>set (concat (map (\<lambda>(pattern_name, pattern).
                if pattern_name \<in> {''credit'', ''debit''} then re_findall True False pattern text
                else []) bank_patterns)). 32 \<notin> set g"
    using bank_patterns_chars findall_chars amt_char_not_space
    by (fastforce simp: re_findall_def split: if_splits)
  from clean_all_no_raise[OF this] show ?thesis by (auto simp: strategy2_def seq_exn_def)
qed

lemma line_amounts_no_raise: "\<exists>vs. line_amounts l = Inr vs"
  using clean_matches_no_raise[of l] by (auto simp: line_amounts_def seq_exn_def)

lemma all_amounts_no_raise: "\<exists>vs. all_amounts ls = Inr vs"
proof (induction ls)
  case Nil
  then show ?case by simp
next
  case (Cons l ls)
  then show ?case using line_amounts_no_raise[of l] by auto
qed

lemma strategy3_no_raise: "\<exists>cs. strategy3 ls = Inr cs"
  using all_amounts_no_raise[of ls] by (auto simp: strategy3_def seq_exn_def)

lemma candidates_no_raise: "\<exists>cs. candidates text = Inr cs"
  using strategy1_no_raise[of 0 "split_on 10 text"] strategy2_no_raise[of "text"]
    strategy3_no_raise[of "split_on 10 text"]
  by (auto simp: candidates_def seq_exn_def)

lemma extract_total_amount_no_raise: "\<exists>a. extract_total_amount text = Inr a"
  using candidates_no_raise[of "text"] by (auto simp: extract_total_amount_def seq_exn_def)

lemma zpad2: "zpad 2 n = [48 + n div 10 mod 10, 48 + n mod 10]"
proof -
  have "zpad (Suc (Suc 0)) n = [48 + n div 10 mod 10, 48 + n mod 10]"
    by (simp only: zpad.simps append.simps)
  then show ?thesis by (simp only: numeral_eq_Suc pred_numeral_simps BitM.simps One_nat_def)
qed

lemmas ev = str_def rupee_def is_digit_def is_space_def lower_cp_def upper_cp_def is_word_def
  lower_def isdigit_def cls_match_def word_opt_def dec_bound_def matched_def group_of_def
  re_search_def re_match_def re_findall_def findall_from.simps ms.simps(5) strip_def
  dig_def spc_def chr_def rng_def one_def ropt_def rstar_def rplus_def seqs_def lit_def
  total_keywords_def ignore_keywords_def month_abbr_def date_sep_def date_patterns_def
  amount_shape_def amount_patterns_def bank_tail_def bank_patterns_def name_char_def
  merchant_patterns_def seq_exn_def digits_val_def py_float_def last_part_pattern_def
  clean_text_def clean_amount_def amount_matches_def has_keyword_def same_line_cands_def next_line_cands_def
  strategy2_def is_integer_def line_amounts_def strategy3_def candidates_def select_def
  extract_total_amount_def dir_d_def dir_m_def a_month_def f_month_def directive_def py_int_def
  is_leap_def days_in_month_def valid_date_def date_fields_def strptime_def strftime_def date_formats_def
  extract_date_def known_merchants_def transaction_types_def extract_description_def
  income_keywords_def expense_keywords_def score_def detect_transaction_type_def falsy_def
  second_try_def extract_transactions_def Let_def dec_str.simps zpad2

section \<open>Amount cleaning: tolerant of formats, stable on its own cleaned text\<close>

lemma split_on_no_sep: "sep \<notin> set b \<Longrightarrow> split_on sep b = [b]"
  by (induction b) (auto split: list.splits)

lemma split_on_ne: "split_on sep s \<noteq> []"
  by (induction s) (auto split: list.splits)

lemma split_on_append: "sep \<notin> set a \<Longrightarrow> split_on sep (a @ sep # b) = a # split_on sep b"
proof (induction a)
  case Nil
  then show ?case using split_on_ne[of sep b] by (auto split: list.splits)
next
  case (Cons c a)
  then show ?case by (auto split: list.splits)
qed

lemma digits_no_dot: "list_all is_digit a \<Longrightarrow> 46 \<notin> set a \<and> 44 \<notin> set a \<and> 32 \<notin> set a"
  by (auto simp: list_all_iff is_digit_def)

lemma filter_digits: "list_all is_digit a \<Longrightarrow> filter (\<lambda>c. is_digit c \<or> c = 44 \<or> c = 46) a = a"
  by (induction a) auto

lemma filter_no_comma: "44 \<notin> set a \<Longrightarrow> filter (\<lambda>c. c \<noteq> 44) a = a"
  by (induction a) auto

lemma count_no_dot: "46 \<notin> set a \<Longrightarrow> count_list a 46 = 0"
  by (induction a) auto

lemma split_on_parts: "w \<in> set (split_on sep s) \<Longrightarrow> sep \<notin> set w \<and> set w \<subseteq> set s"
proof (induction s arbitrary: w)
  case Nil
  then show ?case by simp
next
  case (Cons c s)
  obtain v vs where sp: "split_on sep s = v # vs" using split_on_ne[of sep s] by (cases "split_on sep s") auto
  show ?case
  proof (cases "c = sep")
    case True
    with Cons.prems sp have "w = [] \<or> w \<in> set (split_on sep s)" by auto
    then show ?thesis using Cons.IH by auto
  next
    case False
    with Cons.prems sp have "w = c # v \<or> w \<in> set (split_on sep s)" by auto
    moreover have "sep \<notin> set v \<and> set v \<subseteq> set s" using Cons.IH[of v] sp by simp
    ultimately show ?thesis using Cons.IH False by auto
  qed
qed

lemma count_one_dot:
  "\<forall>w\<in>set ws. 46 \<notin> set w \<Longrightarrow> ws \<noteq> [] \<Longrightarrow>
   count_list (concat (butlast ws) @ [46] @ last ws) 46 = 1"
proof -
  assume a: "\<forall>w\<in>set ws. 46 \<notin> set w" "ws \<noteq> []"
  have "46 \<notin> set (concat (butlast ws))" using a(1) by (auto dest: in_set_butlastD)
  moreover have "46 \<notin> set (last ws)" using a by simp
  ultimately show ?thesis using count_no_dot by simp
qed

text \<open>What stays of a text that holds only digits and points, with at most one point.\<close>

lemma clean_text_fixed:
  assumes "\<forall>c\<in>set s. is_digit c \<or> c = 46" "count_list s 46 \<le> 1"
  shows "clean_text s = Inr s"
proof -
  have d: "\<forall>c\<in>set s. c \<noteq> 32 \<and> c \<noteq> 44" using assms(1) by (auto simp: is_digit_def)
  have f1: "filter (\<lambda>c. is_digit c \<or> c = 44 \<or> c = 46) s = s" using assms(1) by (induction s) auto
  have f2: "filter (\<lambda>c. c \<noteq> 44) s = s" using d by (induction s) auto
  have "32 \<notin> set s" using d by auto
  then show ?thesis unfolding clean_text_def Let_def using f1 f2 assms(2) by simp
qed

lemma clean_text_shape:
  assumes "clean_text x = Inr c"
  shows "(\<forall>d\<in>set c. is_digit d \<or> d = 46) \<and> count_list c 46 \<le> 1"
proof -
  define t where "t = (if 32 \<in> set x \<and>
                  re_match False False last_part_pattern
                    (filter (\<lambda>c. c \<noteq> 44) (last (split_ws x))) \<noteq> None
               then last (split_ws x) else x)"
  define c2 where "c2 = filter (\<lambda>c. c \<noteq> 44) (filter (\<lambda>c. is_digit c \<or> c = 44 \<or> c = 46) t)"
  have c2: "\<forall>d\<in>set c2. is_digit d \<or> d = 46" unfolding c2_def by auto
  from assms have c: "c = (if 1 < count_list c2 46
               then concat (butlast (split_on 46 c2)) @ [46] @ last (split_on 46 c2) else c2)"
    unfolding clean_text_def Let_def c2_def t_def by (auto split: if_splits)
  show ?thesis
  proof (cases "1 < count_list c2 46")
    case False
    then show ?thesis using c c2 by simp
  next
    case True
    have parts: "\<forall>w\<in>set (split_on 46 c2). 46 \<notin> set w \<and> set w \<subseteq> set c2"
      using split_on_parts by blast
    have ne: "split_on 46 c2 \<noteq> []" by (rule split_on_ne)
    have cnt: "count_list c 46 = 1" using c True count_one_dot[of "split_on 46 c2"] parts ne by simp
    have "set (concat (butlast (split_on 46 c2))) \<subseteq> set c2"
      using parts by (auto dest: in_set_butlastD)
    moreover have "set (last (split_on 46 c2)) \<subseteq> set c2" using parts ne by simp
    ultimately have "\<forall>d\<in>set c. is_digit d \<or> d = 46" using c True c2 by auto
    then show ?thesis using cnt by simp
  qed
qed

lemma clean_text_idempotent: "clean_text x = Inr c \<Longrightarrow> clean_text c = Inr c"
  using clean_text_shape[of x c] clean_text_fixed[of c] by blast

lemma clean_text_positional: "positional s \<Longrightarrow> clean_text s = Inr s"
proof -
  assume "positional s"
  then obtain a b where s: "s = a @ [46] @ b" "list_all is_digit a" "list_all is_digit b"
    unfolding positional_def by blast
  have "46 \<notin> set a" "46 \<notin> set b" using digits_no_dot s(2,3) by auto
  then have "count_list s 46 = 1" using s(1) count_no_dot by simp
  moreover have "\<forall>c\<in>set s. is_digit c \<or> c = 46" using s by (auto simp: list_all_iff)
  ultimately show ?thesis using clean_text_fixed by simp
qed

text \<open>
  Claim C8, as the code has it. The rupee-prefixed, the Rs-suffixed and the doubly dotted
  spelling of 1,234.56 all clean to 1234.56. Cleaning is idempotent on its cleaned text: when
  an ASCII input is cleaned to a digit text, cleaning that text gives the same text and the same
  value;
  and a positional decimal rendering that is read as a value cleans to that value. (A rendering
  in exponent notation is not read back.)
\<close>

theorem clean_amount_tolerant_stable:
  "clean_amount (rupee # str ''1,234.56'') = Inr (Some 1234.56)
   \<and> clean_amount (str ''1,234.56 Rs'') = Inr (Some 1234.56)
   \<and> clean_amount (str ''1.234.56'') = Inr (Some 1234.56)
   \<and> (ascii_only x \<longrightarrow> clean_text x = Inr c \<longrightarrow>
        clean_text c = Inr c \<and> clean_amount c = clean_amount x)
   \<and> (positional s \<longrightarrow> py_float s = Some v \<longrightarrow> clean_amount s = Inr (Some v))"
proof (intro conjI impI)
  show "clean_amount (rupee # str ''1,234.56'') = Inr (Some 1234.56)" by (simp add: ev)
  show "clean_amount (str ''1,234.56 Rs'') = Inr (Some 1234.56)" by (simp add: ev)
  show "clean_amount (str ''1.234.56'') = Inr (Some 1234.56)" by (simp add: ev)
next
  assume x: "clean_text x = Inr c"
  then show "clean_text c = Inr c" by (rule clean_text_idempotent)
  then show "clean_amount c = clean_amount x" using x by (simp add: clean_amount_def seq_exn_def)
next
  assume "positional s" "py_float s = Some v"
  then show "clean_amount s = Inr (Some v)"
    using clean_text_positional by (simp add: clean_amount_def seq_exn_def)
qed

theorem clean_amount_tolerant_stable_witness:
  "ascii_only (str ''1.234.56'') \<and> clean_text (str ''1.234.56'') = Inr (str ''1234.56'')
   \<and> clean_text (str ''1234.56'') = Inr (str ''1234.56'')
   \<and> clean_amount (str ''1234.56'') = clean_amount (str ''1.234.56'')
   \<and> positional (str ''1234.56'') \<and> py_float (str ''1234.56'') = Some 1234.56
   \<and> clean_amount (str ''1234.56'') = Inr (Some 1234.56)"
proof -
  have c: "clean_text (str ''1.234.56'') = Inr (str ''1234.56'')" by (simp add: ev)
  have p: "positional (str ''1234.56'')"
    unfolding positional_def
    by (intro exI[of _ "str ''1234''"] exI[of _ "str ''56''"]) (simp add: str_def is_digit_def)
  have f: "py_float (str ''1234.56'') = Some 1234.56" by (simp add: ev)
  have a: "ascii_only (str ''1.234.56'')" by (simp add: ascii_only_def str_def)
  show ?thesis
    using clean_amount_tolerant_stable[of "str ''1.234.56''" "str ''1234.56''" "str ''1234.56''" "1234.56"]
      c p f a
    by simp
qed

theorem exponent_rendering_not_read_back:
  "clean_amount (str ''10000000000000000'') = Inr (Some 10000000000000000)
   \<and> clean_amount (str ''1e+16'') = Inr (Some 116)"
  by (simp add: ev)


section \<open>DateResolver: total, with a fallback\<close>

lemma strptime_valid: "strptime date_str fmt = Some dt \<Longrightarrow> valid_date dt"
  by (auto simp: strptime_def split: option.splits if_splits)

lemma parse_date_valid:
  "parse_date date_str fmts = Some d \<Longrightarrow> \<exists>dt. valid_date dt \<and> d = strftime dt"
proof (induction fmts)
  case Nil
  then show ?case by simp
next
  case (Cons fmt fmts)
  show ?case
  proof (cases "strptime date_str fmt")
    case None
    then show ?thesis using Cons by simp
  next
    case (Some dt)
    then have "valid_date dt" by (rule strptime_valid)
    moreover have "d = strftime dt" using Cons.prems Some by simp
    ultimately show ?thesis by blast
  qed
qed

lemma date_loop_valid:
  "valid_date now \<Longrightarrow> \<exists>dt. valid_date dt \<and> date_loop patterns now text = strftime dt"
proof (induction patterns)
  case Nil
  then have "valid_date now \<and> date_loop [] now text = strftime now" by simp
  then show ?case by blast
next
  case (Cons pattern patterns)
  show ?case
  proof (cases "re_search True False pattern text")
    case None
    then show ?thesis using Cons by simp
  next
    case (Some m)
    show ?thesis
    proof (cases "parse_date (matched m) date_formats")
      case None
      then show ?thesis using Cons Some by simp
    next
      case (Some d)
      then obtain dt where "valid_date dt" "d = strftime dt" using parse_date_valid by blast
      then have "valid_date dt \<and> date_loop (pattern # patterns) now text = strftime dt"
        using Some \<open>re_search True False pattern text = Some m\<close> by simp
      then show ?thesis by blast
    qed
  qed
qed

lemma date_loop_no_match:
  "\<forall>pattern\<in>set patterns. re_search True False pattern text = None \<Longrightarrow>
   date_loop patterns now text = strftime now"
  by (induction patterns) auto

lemma date_loop_skip:
  "\<forall>pattern\<in>set patterns. re_search True False pattern text = None \<or> unparseable pattern text \<Longrightarrow>
   date_loop patterns now text = strftime now"
  by (induction patterns) (auto simp: unparseable_def split: option.splits)

lemma extract_date_valid:
  "valid_date now \<Longrightarrow> \<exists>dt. valid_date dt \<and> extract_date now text = strftime dt"
  unfolding extract_date_def by (rule date_loop_valid)

lemma extract_date_no_match:
  "\<forall>pattern\<in>set date_patterns. re_search True False pattern text = None \<Longrightarrow>
   extract_date now text = strftime now"
  unfolding extract_date_def by (rule date_loop_no_match)

text \<open>
  Claim C6, at the input where the code misses it. The resolver is total and falls back to the
  processing date, but its result is not always of the shape YYYY-MM-DD: the text 01/01/0999
  parses as the first of January of the year 999, and the year is rendered without padding, so
  the result 999-01-01 has a year of three digits.
\<close>

theorem date_year_below_1000:
  "extract_date now (str ''01/01/0999'') = str ''999-01-01''
   \<and> \<not> iso_date (extract_date now (str ''01/01/0999''))"
proof -
  have e: "extract_date now (str ''01/01/0999'') = str ''999-01-01''" by (simp add: ev)
  have "\<not> iso_date (str ''999-01-01'')" by (simp add: str_def)
  then show ?thesis using e by simp
qed


text \<open>
  Claim C10. A date-shaped match that parses under none of the formats is skipped without an
  error: when every pattern either does not match or matches unparseable text, the resolver
  returns the processing date, as it does for 99/99/2024; and a later pattern with a parseable
  match still gives its date, as 2023/01/05 does after the impossible 31/02/2024.
\<close>

theorem date_resolver_skips_unparseable:
  "((\<forall>pattern\<in>set date_patterns.
        re_search True False pattern text = None \<or> unparseable pattern text)
      \<longrightarrow> extract_date now text = strftime now)
   \<and> unparseable (date_patterns ! 0) (str ''99/99/2024'')
   \<and> extract_date now (str ''99/99/2024'') = strftime now
   \<and> unparseable (date_patterns ! 0) (str ''31/02/2024 and 2023/01/05'')
   \<and> extract_date now (str ''31/02/2024 and 2023/01/05'') = str ''2023-01-05''"
proof (intro conjI impI)
  assume "\<forall>pattern\<in>set date_patterns.
            re_search True False pattern text = None \<or> unparseable pattern text"
  then show "extract_date now text = strftime now"
    unfolding extract_date_def by (rule date_loop_skip)
next
  show "unparseable (date_patterns ! 0) (str ''99/99/2024'')"
    by (simp add: unparseable_def ev)
  show "extract_date now (str ''99/99/2024'') = strftime now"
    by (simp add: ev)
  show "unparseable (date_patterns ! 0) (str ''31/02/2024 and 2023/01/05'')"
    by (simp add: unparseable_def ev)
  show "extract_date now (str ''31/02/2024 and 2023/01/05'') = str ''2023-01-05''"
    by (simp add: ev)
qed

theorem date_resolver_skips_unparseable_witness:
  "list_all (\<lambda>pattern. re_search True False pattern (str ''99/99/2024'') = None \<or>
                      unparseable pattern (str ''99/99/2024'')) date_patterns
   \<and> extract_date (2026, 11, 4) (str ''99/99/2024'') = str ''2026-11-04''"
proof -
  have h: "\<forall>pattern\<in>set date_patterns.
       re_search True False pattern (str ''99/99/2024'') = None \<or>
       unparseable pattern (str ''99/99/2024'')"
    by (simp add: unparseable_def ev)
  have s: "strftime (2026, 11, 4) = str ''2026-11-04''"
    by (simp add: strftime_def dec_str.simps zpad2 str_def)
  show ?thesis
    using date_resolver_skips_unparseable[of "str ''99/99/2024''" "(2026, 11, 4)"] h s
    by (simp add: list_all_iff)
qed

section \<open>The end-to-end receipt\<close>

lemma receipt_amount: "extract_total_amount receipt = Inr None"
  by (simp add: receipt_def ev)

lemma receipt_rs_amount: "extract_total_amount receipt_rs = Inr (Some 495)"
  by (simp add: receipt_rs_def ev)

lemma receipt_rs_date: "extract_date now receipt_rs = str ''2024-03-12''"
  by (simp add: receipt_rs_def ev)

lemma receipt_rs_description: "extract_description receipt_rs = str ''ABC CAFE Date''"
  by (simp add: receipt_rs_def ev)

lemma receipt_rs_type: "detect_transaction_type receipt_rs d = str ''expense''"
  by (simp add: receipt_rs_def ev)

lemma receipt_rs_strip: "5 \<le> length (strip receipt_rs)"
  by (simp add: receipt_rs_def ev)

lemma no_amount_no_transaction:
  "extract_total_amount text1 = Inr None \<Longrightarrow> raw = None \<or> raw = Some text1 \<Longrightarrow>
   extract_transactions now (Image text1 raw) = Inr []"
  by (auto simp: extract_transactions_def second_try_def falsy_def seq_exn_def)

lemma first_pass_transaction:
  "extract_total_amount text1 = Inr (Some a) \<Longrightarrow> a \<noteq> 0 \<Longrightarrow> 5 \<le> length (strip text1) \<Longrightarrow>
   extract_transactions now (Image text1 raw) =
     Inr [\<lparr>date = extract_date now text1, description = extract_description text1,
           amount = a, type = detect_transaction_type text1 (extract_description text1),
           raw_text = take 500 text1\<rparr>]"
  by (auto simp: extract_transactions_def second_try_def falsy_def seq_exn_def strip_def)

text \<open>
  Claim C1, as the code has it. For the receipt with the lines ABC CAFE, Date: 12/03/2024,
  Subtotal: 450.00, CGST: 20.00 and Total: 495.00 the amount resolver finds no amount, and the
  pipeline returns no transaction, whether the raw pass fails or reads the same text. With the
  last line written Total: Rs 495.00 the pipeline returns exactly one transaction, with the date
  2024-03-12, the amount 495.00 and the type expense.
\<close>

theorem receipt_end_to_end:
  "extract_total_amount receipt = Inr None
   \<and> extract_transactions now (Image receipt None) = Inr []
   \<and> extract_transactions now (Image receipt (Some receipt)) = Inr []
   \<and> (\<exists>t. extract_transactions now (Image receipt_rs raw) = Inr [t]
          \<and> date t = str ''2024-03-12'' \<and> transaction.amount t = 495
          \<and> type t = str ''expense'')"
proof (intro conjI)
  show "extract_total_amount receipt = Inr None" by (rule receipt_amount)
  show "extract_transactions now (Image receipt None) = Inr []"
    using receipt_amount by (simp add: no_amount_no_transaction)
  show "extract_transactions now (Image receipt (Some receipt)) = Inr []"
    using receipt_amount by (simp add: no_amount_no_transaction)
  have "extract_transactions now (Image receipt_rs raw) =
     Inr [\<lparr>date = extract_date now receipt_rs, description = extract_description receipt_rs,
           amount = 495,
           type = detect_transaction_type receipt_rs (extract_description receipt_rs),
           raw_text = take 500 receipt_rs\<rparr>]"
    using first_pass_transaction[OF receipt_rs_amount _ receipt_rs_strip] by simp
  then show "\<exists>t. extract_transactions now (Image receipt_rs raw) = Inr [t]
          \<and> date t = str ''2024-03-12'' \<and> transaction.amount t = 495
          \<and> type t = str ''expense''"
    by (simp add: receipt_rs_date receipt_rs_type)
qed

theorem receipt_no_transaction:
  "extract_transactions (2024, 3, 12) (Image receipt (Some receipt)) = Inr []"
  using receipt_amount by (simp add: no_amount_no_transaction)

section \<open>Year exclusion\<close>

lemma all_amounts_plausible:
  "all_amounts ls = Inr vs \<Longrightarrow>
   \<forall>a\<in>set vs. 1 < a \<and> \<not> (is_integer a \<and> 2000 \<le> a \<and> a \<le> 2100)"
proof (induction ls arbitrary: vs)
  case Nil
  then show ?case by simp
next
  case (Cons l ls)
  from Cons.prems obtain v1 v2 where v: "line_amounts l = Inr v1" "all_amounts ls = Inr v2"
    "vs = v1 @ v2" by (auto split: sum.splits)
  have "\<forall>a\<in>set v1. 1 < a \<and> \<not> (is_integer a \<and> 2000 \<le> a \<and> a \<le> 2100)"
    using v(1) by (auto simp: line_amounts_def seq_exn_def split: if_splits sum.splits)
  then show ?case using Cons.IH[OF v(2)] v(3) by auto
qed

lemma strategy3_plausible:
  assumes "strategy3 ls = Inr cs" "c \<in> set cs"
  shows "1 < cand.amount c \<and> \<not> (is_integer (cand.amount c) \<and> 2000 \<le> cand.amount c \<and> cand.amount c \<le> 2100)"
proof -
  from assms obtain vs where vs: "all_amounts ls = Inr vs" "vs \<noteq> []" "cand.amount c = Max (set vs)"
    by (auto simp: strategy3_def seq_exn_def split: sum.splits if_splits)
  then have "Max (set vs) \<in> set vs" by (intro Max_in) auto
  then show ?thesis using all_amounts_plausible[OF vs(1)] vs(3) by auto
qed

text \<open>
  Claim C3, as the code has it. With the lines Date 15/03/2024 and Total 2024 the resolver
  selects 2024, whether the amount is written 2024 or 2024.00: the line holds a total keyword,
  and the keyword strategy excludes no years. Whole values from 2000 to 2100 are excluded by the
  largest-number fallback only, whose candidate is never such a value; without the keyword, as
  in Sum 2024, no amount is found.
\<close>

theorem year_exclusion_in_fallback_only:
  "extract_total_amount (unlines [str ''Date 15/03/2024'', str ''Total 2024'']) = Inr (Some 2024)
   \<and> extract_total_amount (unlines [str ''Date 15/03/2024'', str ''Total 2024.00'']) = Inr (Some 2024)
   \<and> extract_total_amount (unlines [str ''Date 15/03/2024'', str ''Sum 2024'']) = Inr None
   \<and> (strategy3 ls = Inr cs \<longrightarrow>
        (\<forall>c\<in>set cs. \<not> (is_integer (cand.amount c) \<and> 2000 \<le> cand.amount c \<and> cand.amount c \<le> 2100)))"
proof (intro conjI impI ballI)
  show "extract_total_amount (unlines [str ''Date 15/03/2024'', str ''Total 2024'']) = Inr (Some 2024)"
    by (simp add: ev)
  show "extract_total_amount (unlines [str ''Date 15/03/2024'', str ''Total 2024.00'']) = Inr (Some 2024)"
    by (simp add: ev)
  show "extract_total_amount (unlines [str ''Date 15/03/2024'', str ''Sum 2024'']) = Inr None"
    by (simp add: ev)
next
  fix c assume "strategy3 ls = Inr cs" "c \<in> set cs"
  then show "\<not> (is_integer (cand.amount c) \<and> 2000 \<le> cand.amount c \<and> cand.amount c \<le> 2100)"
    using strategy3_plausible by blast
qed

theorem year_exclusion_in_fallback_only_witness:
  "strategy3 [str ''Sum 3024''] = Inr [\<lparr>cand.amount = 3024, priority = 50, line = [], line_index = - 1\<rparr>]
   \<and> \<not> (is_integer 3024 \<and> (2000 :: rat) \<le> 3024 \<and> (3024 :: rat) \<le> 2100)"
proof -
  have s: "strategy3 [str ''Sum 3024''] =
             Inr [\<lparr>cand.amount = 3024, priority = 50, line = [], line_index = - 1\<rparr>]"
    by (simp add: ev)
  show ?thesis
    using year_exclusion_in_fallback_only[of "[str ''Sum 3024'']"
        "[\<lparr>cand.amount = 3024, priority = 50, line = [], line_index = - 1\<rparr>]"] s
    by simp
qed

theorem keyword_line_year_selected:
  "extract_total_amount (unlines [str ''Date 15/03/2024'', str ''Total 2024'']) = Inr (Some 2024)"
  by (simp add: ev)

section \<open>What a returned transaction satisfies\<close>

lemma py_float_nonneg: "py_float s = Some v \<Longrightarrow> 0 \<le> v"
  by (auto simp: py_float_def split: list.splits if_splits)

lemma clean_amount_nonneg: "clean_amount g = Inr (Some v) \<Longrightarrow> 0 \<le> v"
  unfolding clean_amount_def clean_text_def seq_exn_def Let_def using py_float_nonneg
  by (auto split: if_splits)

lemma clean_all_nonneg: "clean_all gs = Inr vs \<Longrightarrow> (m, v) \<in> set vs \<Longrightarrow> 0 \<le> v"
proof (induction gs arbitrary: vs)
  case Nil
  then show ?case by simp
next
  case (Cons g gs)
  from Cons.prems(1) obtain a ws where a: "clean_amount g = Inr a" "clean_all gs = Inr ws"
    "vs = (case a of None \<Rightarrow> ws | Some w \<Rightarrow> (g, w) # ws)"
    by (auto split: sum.splits)
  show ?case
  proof (cases a)
    case None
    then show ?thesis using a Cons by simp
  next
    case (Some w)
    then have "0 \<le> w" using a(1) clean_amount_nonneg by simp
    then show ?thesis using a Some Cons by auto
  qed
qed

lemma same_line_nonneg: "same_line_cands i l = Inr cs \<Longrightarrow> c \<in> set cs \<Longrightarrow> 0 \<le> cand.amount c"
  using clean_all_nonneg
  by (fastforce simp: same_line_cands_def seq_exn_def split: sum.splits)

lemma next_line_nonneg: "next_line_cands i l = Inr cs \<Longrightarrow> c \<in> set cs \<Longrightarrow> 0 \<le> cand.amount c"
  using clean_all_nonneg
  by (fastforce simp: next_line_cands_def seq_exn_def split: sum.splits)

lemma strategy1_nonneg: "strategy1 i ls = Inr cs \<Longrightarrow> c \<in> set cs \<Longrightarrow> 0 \<le> cand.amount c"
proof (induction ls arbitrary: i cs)
  case Nil
  then show ?case by simp
next
  case (Cons l ls)
  show ?case
  proof (cases "has_keyword total_keywords (lower l) \<and> \<not> has_keyword ignore_keywords (lower l)")
    case False
    then have "strategy1 (i + 1) ls = Inr cs" using Cons.prems(1) by auto
    then show ?thesis using Cons.IH Cons.prems(2) by blast
  next
    case True
    with Cons.prems(1) obtain same nxt rest where p: "same_line_cands i l = Inr same"
      "(case ls of [] \<Rightarrow> Inr [] | next_line # x \<Rightarrow> next_line_cands (i + 1) next_line) = Inr nxt"
      "strategy1 (i + 1) ls = Inr rest" "cs = same @ nxt @ rest"
      by (auto split: sum.splits)
    from Cons.prems(2) p(4) consider "c \<in> set same" | "c \<in> set nxt" | "c \<in> set rest" by auto
    then show ?thesis
    proof cases
      case 1
      then show ?thesis using same_line_nonneg p(1) by blast
    next
      case 2
      then show ?thesis using next_line_nonneg p(2) by (auto split: list.splits)
    next
      case 3
      then show ?thesis using Cons.IH p(3) by blast
    qed
  qed
qed

lemma strategy2_nonneg: "strategy2 text = Inr cs \<Longrightarrow> c \<in> set cs \<Longrightarrow> 0 \<le> cand.amount c"
  using clean_all_nonneg
  by (fastforce simp: strategy2_def seq_exn_def split: sum.splits)

lemma strategy3_nonneg: "strategy3 ls = Inr cs \<Longrightarrow> c \<in> set cs \<Longrightarrow> 0 \<le> cand.amount c"
  using strategy3_plausible[of ls cs c] by simp

lemma candidates_nonneg: "candidates text = Inr cs \<Longrightarrow> c \<in> set cs \<Longrightarrow> 0 \<le> cand.amount c"
  using strategy1_nonneg strategy2_nonneg strategy3_nonneg
  by (auto simp: candidates_def seq_exn_def split: sum.splits if_splits)

lemma select_mem: "select cs = Some a \<Longrightarrow> \<exists>c\<in>set cs. cand.amount c = a"
proof -
  assume s: "select cs = Some a"
  then obtain c rest where c: "sort_key (\<lambda>c. - priority c) cs = c # rest" "cand.amount c = a"
    by (auto simp: select_def split: list.splits)
  then have "c \<in> set (sort_key (\<lambda>c. - priority c) cs)" by simp
  then have "c \<in> set cs" by simp
  then show ?thesis using c(2) by blast
qed

lemma extract_total_amount_nonneg: "extract_total_amount text = Inr (Some a) \<Longrightarrow> 0 \<le> a"
proof -
  assume e: "extract_total_amount text = Inr (Some a)"
  then obtain cs where cs: "candidates text = Inr cs" "select cs = Some a"
    by (auto simp: extract_total_amount_def seq_exn_def split: sum.splits)
  then obtain c where "c \<in> set cs" "cand.amount c = a" using select_mem by blast
  then show ?thesis using candidates_nonneg cs(1) by blast
qed

lemma merchant_loop_length:
  "merchant_loop patterns text = Some m \<Longrightarrow> 3 < length m \<and> length m < 50"
  by (induction patterns) (auto simp: Let_def split: option.splits if_splits)

lemma line_loop_length: "line_loop ls = Some d \<Longrightarrow> d \<noteq> [] \<and> length d \<le> 100"
  by (induction ls) (auto split: if_splits)

lemma known_merchants_length: "m \<in> set known_merchants \<Longrightarrow> m \<noteq> [] \<and> length m \<le> 100"
  by (auto simp: known_merchants_def str_def)

lemma transaction_types_length:
  "(k, d) \<in> set transaction_types \<Longrightarrow> d \<noteq> [] \<and> length d \<le> 100"
  by (auto simp: transaction_types_def str_def)

lemma extract_description_length:
  "extract_description text \<noteq> [] \<and> length (extract_description text) \<le> 100"
proof (cases "find (\<lambda>merchant. contains (lower merchant) (lower text)) known_merchants")
  case (Some m)
  then have "m \<in> set known_merchants" by (auto simp: find_Some_iff)
  then show ?thesis using Some known_merchants_length by (simp add: extract_description_def)
next
  case None
  note n1 = this
  show ?thesis
  proof (cases "merchant_loop merchant_patterns text")
    case (Some m)
    then show ?thesis using n1 merchant_loop_length[OF Some] by (auto simp: extract_description_def)
  next
    case None
    note n2 = this
    show ?thesis
    proof (cases "line_loop (take 5 (filter (\<lambda>l. l \<noteq> []) (map strip (split_on 10 text))))")
      case (Some d)
      then show ?thesis using n1 n2 line_loop_length[OF Some] by (simp add: extract_description_def)
    next
      case None
      note n3 = this
      show ?thesis
      proof (cases "find (\<lambda>(keyword, description). contains keyword (lower text)) transaction_types")
        case None
        then show ?thesis using n1 n2 n3 by (simp add: extract_description_def str_def)
      next
        case (Some kd)
        obtain k d where kd: "kd = (k, d)" by (cases kd) auto
        have "(k, d) \<in> set transaction_types" using Some kd by (metis find_Some_iff nth_mem)
        then show ?thesis using n1 n2 n3 Some kd transaction_types_length
          by (simp add: extract_description_def)
      qed
    qed
  qed
qed

lemma detect_transaction_type_values:
  "detect_transaction_type text d = str ''income'' \<or> detect_transaction_type text d = str ''expense''"
  by (simp add: detect_transaction_type_def)

lemma second_try_nonneg:
  assumes "extract_total_amount text1 = Inr amount1" "second_try text1 amount1 raw = (t, Some a)"
  shows "0 \<le> a"
proof -
  from assms(2) consider "amount1 = Some a"
    | tr where "raw = Some tr" "extract_total_amount tr = Inr (Some a)"
    by (auto simp: second_try_def split: if_splits option.splits sum.splits)
  then show ?thesis using assms(1) extract_total_amount_nonneg by cases auto
qed

text \<open>
  Claim C4. Every transaction that the extraction pipeline returns has an amount greater than
  zero, a description of 1 to 100 characters, the type income or expense, and a raw-text sample
  of at most 500 characters; and one call returns at most one transaction.
\<close>

theorem transaction_invariants:
  "extract_transactions now image_file = Inr ts \<Longrightarrow>
     length ts \<le> 1
     \<and> (\<forall>t\<in>set ts.
           0 < transaction.amount t
           \<and> description t \<noteq> [] \<and> length (description t) \<le> 100
           \<and> (type t = str ''income'' \<or> type t = str ''expense'')
           \<and> length (raw_text t) \<le> 500)"
proof (cases image_file)
  case Unreadable
  assume "extract_transactions now image_file = Inr ts"
  then show ?thesis using Unreadable by (auto simp: extract_transactions_def)
next
  case (Image text1 raw)
  assume r: "extract_transactions now image_file = Inr ts"
  obtain amount1 where a1: "extract_total_amount text1 = Inr amount1"
    using extract_total_amount_no_raise by blast
  obtain t found where st: "second_try text1 amount1 raw = (t, found)"
    by (cases "second_try text1 amount1 raw") auto
  show ?thesis
  proof (cases "ts = []")
    case True
    then show ?thesis by simp
  next
    case False
    with r Image a1 st obtain a where f: "found = Some a" "a \<noteq> 0"
      and ts: "ts = [\<lparr>date = extract_date now t, description = extract_description t,
                        amount = a, type = detect_transaction_type t (extract_description t),
                        raw_text = take 500 t\<rparr>]"
      by (auto simp: extract_transactions_def seq_exn_def split: if_splits option.splits)
    have "0 \<le> a" using second_try_nonneg[OF a1] st f by simp
    then have "0 < a" using f(2) by simp
    then show ?thesis
      using ts extract_description_length[of t]
        detect_transaction_type_values[of t "extract_description t"]
      by simp
  qed
qed

theorem transaction_invariants_witness:
  "extract_transactions (2026, 11, 4) (Image (str ''Total Rs 495.00'') None) =
     Inr [\<lparr>date = str ''2026-11-04'', description = str ''Total Rs 495.00'', amount = 495,
           type = str ''expense'', raw_text = str ''Total Rs 495.00''\<rparr>]
   \<and> length (str ''Total Rs 495.00'') \<le> 100"
proof -
  have e: "extract_transactions (2026, 11, 4) (Image (str ''Total Rs 495.00'') None) =
     Inr [\<lparr>date = str ''2026-11-04'', description = str ''Total Rs 495.00'', amount = 495,
           type = str ''expense'', raw_text = str ''Total Rs 495.00''\<rparr>]"
    by (simp add: ev)
  show ?thesis using transaction_invariants[OF e] e by simp
qed

section \<open>Sparse text\<close>

lemma extract_transactions_no_raise: "\<exists>ts. extract_transactions now image_file = Inr ts"
proof (cases image_file)
  case Unreadable
  then show ?thesis by (simp add: extract_transactions_def)
next
  case (Image text1 raw)
  obtain amount1 where a1: "extract_total_amount text1 = Inr amount1"
    using extract_total_amount_no_raise by blast
  then show ?thesis using Image
    by (auto simp: extract_transactions_def seq_exn_def split: prod.splits option.splits)
qed

text \<open>
  Claim C5, as the code has it. The extraction call never raises; and if the final text, with
  the white space at its two ends stripped, has fewer than 5 characters (white space inside it
  counted), the call returns the empty result.
\<close>

theorem sparse_text_no_transaction:
  "(\<exists>ts. extract_transactions now (Image text1 raw) = Inr ts)
   \<and> (length (strip (final_text text1 raw)) < 5
        \<longrightarrow> extract_transactions now (Image text1 raw) = Inr [])"
proof (intro conjI impI)
  show "\<exists>ts. extract_transactions now (Image text1 raw) = Inr ts"
    by (rule extract_transactions_no_raise)
next
  assume s: "length (strip (final_text text1 raw)) < 5"
  obtain amount1 where a1: "extract_total_amount text1 = Inr amount1"
    using extract_total_amount_no_raise by blast
  obtain t found where st: "second_try text1 amount1 raw = (t, found)"
    by (cases "second_try text1 amount1 raw") auto
  have "final_text text1 raw = t" using a1 st by (simp add: final_text_def)
  then have "length (strip t) < 5" using s by simp
  then show "extract_transactions now (Image text1 raw) = Inr []"
    using a1 st by (simp add: extract_transactions_def seq_exn_def)
qed

theorem sparse_text_no_transaction_witness:
  "length (strip (final_text (str '' ab '') None)) < 5
   \<and> extract_transactions (2026, 11, 4) (Image (str '' ab '') None) = Inr []"
proof -
  have a: "extract_total_amount (str '' ab '') = Inr None" by (simp add: ev)
  have f: "final_text (str '' ab '') None = str '' ab ''"
    by (simp add: final_text_def a second_try_def)
  have l: "length (strip (final_text (str '' ab '') None)) < 5"
    by (simp add: f) (simp add: str_def strip_def is_space_def)
  show ?thesis
    using sparse_text_no_transaction[of "(2026, 11, 4)" "str '' ab ''" None] l by simp
qed

theorem few_characters_still_a_transaction:
  "non_space_count (final_text (str ''cr  5'') None) = 3
   \<and> extract_transactions (2026, 11, 4) (Image (str ''cr  5'') None) =
       Inr [\<lparr>date = str ''2026-11-04'', description = str ''cr 5'', amount = 5,
             type = str ''expense'', raw_text = str ''cr  5''\<rparr>]"
proof -
  have a: "extract_total_amount (str ''cr  5'') = Inr (Some 5)" by (simp add: ev)
  have f: "final_text (str ''cr  5'') None = str ''cr  5''"
    by (simp add: final_text_def a second_try_def falsy_def)
  have n: "non_space_count (final_text (str ''cr  5'') None) = 3"
    by (simp add: f) (simp add: non_space_count_def str_def is_space_def)
  have e: "extract_transactions (2026, 11, 4) (Image (str ''cr  5'') None) =
       Inr [\<lparr>date = str ''2026-11-04'', description = str ''cr 5'', amount = 5,
             type = str ''expense'', raw_text = str ''cr  5''\<rparr>]"
    by (simp add: ev)
  show ?thesis using n e by simp
qed

section \<open>AmountResolver: the selection\<close>

lemma find_filter: "find P xs = (case filter P xs of [] \<Rightarrow> None | x # _ \<Rightarrow> Some x)"
  by (induction xs) auto

lemma sort_key_head_first:
  assumes "sort_key f xs = c # rest"
  shows "find (\<lambda>y. f y = f c) xs = Some c \<and> (\<forall>y\<in>set xs. f c \<le> f y)"
proof -
  have "sorted (map f (c # rest))" using sorted_sort_key[of f xs] assms by simp
  then have le: "\<forall>y\<in>set (c # rest). f c \<le> f y" by auto
  have "set (c # rest) = set xs" using set_sort[of f xs] assms by simp
  then have le': "\<forall>y\<in>set xs. f c \<le> f y" using le by blast
  have "filter (\<lambda>y. f y = f c) xs = filter (\<lambda>y. f y = f c) (sort_key f xs)"
    using sort_key_stable[of f "f c" xs] by simp
  also have "\<dots> = c # filter (\<lambda>y. f y = f c) rest" using assms by simp
  finally have "find (\<lambda>y. f y = f c) xs = Some c" by (simp add: find_filter)
  then show ?thesis using le' by simp
qed

lemma select_first_best: "select cs = map_option cand.amount (find (best_in cs) cs)"
proof (cases "sort_key (\<lambda>c. - priority c) cs")
  case Nil
  then have "cs = []" using length_sort[of "\<lambda>c. - priority c" cs] by simp
  then show ?thesis by (simp add: select_def)
next
  case (Cons c rest)
  from sort_key_head_first[OF Cons]
  have f: "find (\<lambda>y. - priority y = - priority c) cs = Some c"
    and le: "\<forall>y\<in>set cs. priority y \<le> priority c" by auto
  have cin: "c \<in> set cs" using f by (metis find_Some_iff nth_mem)
  have "find (best_in cs) cs = find (\<lambda>y. - priority y = - priority c) cs"
  proof (rule find_cong[OF refl])
    fix y assume y: "y \<in> set cs"
    show "best_in cs y = (- priority y = - priority c)"
    proof
      assume "best_in cs y"
      then have "priority c \<le> priority y" using cin by (simp add: best_in_def)
      then show "- priority y = - priority c" using le y by fastforce
    next
      assume "- priority y = - priority c"
      then show "best_in cs y" using le by (simp add: best_in_def)
    qed
  qed
  then show ?thesis using f Cons by (simp add: select_def)
qed

lemma find_first: "\<forall>d\<in>set before. \<not> P d \<Longrightarrow> P c \<Longrightarrow> find P (before @ c # after) = Some c"
  by (induction before) auto

lemma select_first_200:
  assumes "\<forall>d\<in>set (before @ c # after). priority d \<le> 200" "priority c = 200"
    "\<forall>d\<in>set before. priority d < 200"
  shows "select (before @ c # after) = Some (cand.amount c)"
proof -
  have "\<forall>d\<in>set before. \<not> best_in (before @ c # after) d"
    using assms(2,3) by (fastforce simp: best_in_def)
  moreover have "best_in (before @ c # after) c" using assms(1,2) by (simp add: best_in_def)
  ultimately have "find (best_in (before @ c # after)) (before @ c # after) = Some c"
    by (rule find_first)
  then show ?thesis by (simp add: select_first_best)
qed

lemma same_line_priority:
  "same_line_cands i l = Inr cs \<Longrightarrow> c \<in> set cs \<Longrightarrow>
   priority c = (if top_phrase l then 200 else 100)"
  by (auto simp: same_line_cands_def seq_exn_def top_phrase_def split: sum.splits)

lemma next_line_priority: "next_line_cands i l = Inr cs \<Longrightarrow> c \<in> set cs \<Longrightarrow> priority c = 90"
  by (auto simp: next_line_cands_def seq_exn_def split: sum.splits)

lemma strategy1_step:
  assumes "strategy1 i (l # ls) = Inr cs"
  obtains (keyword) same nxt rest where "same_line_cands i l = Inr same"
      "(case ls of [] \<Rightarrow> Inr [] | next_line # x \<Rightarrow> next_line_cands (i + 1) next_line) = Inr nxt"
      "strategy1 (i + 1) ls = Inr rest" "cs = same @ nxt @ rest"
      "has_keyword total_keywords (lower l)" "\<not> has_keyword ignore_keywords (lower l)"
    | (skip) "strategy1 (i + 1) ls = Inr cs"
      "\<not> (has_keyword total_keywords (lower l) \<and> \<not> has_keyword ignore_keywords (lower l))"
proof (cases "has_keyword total_keywords (lower l) \<and> \<not> has_keyword ignore_keywords (lower l)")
  case False
  then show ?thesis using assms skip by auto
next
  case True
  with assms obtain same nxt rest where p: "same_line_cands i l = Inr same"
    "(case ls of [] \<Rightarrow> Inr [] | next_line # x \<Rightarrow> next_line_cands (i + 1) next_line) = Inr nxt"
    "strategy1 (i + 1) ls = Inr rest" "cs = same @ nxt @ rest"
    by (auto split: sum.splits)
  then show ?thesis using keyword True by blast
qed

lemma next_of_priority:
  "(case ls of [] \<Rightarrow> Inr [] | next_line # x \<Rightarrow> next_line_cands i next_line) = Inr nxt \<Longrightarrow>
   d \<in> set nxt \<Longrightarrow> priority d = 90"
  using next_line_priority by (cases ls) auto

lemma strategy1_priority:
  "strategy1 i ls = Inr cs \<Longrightarrow> c \<in> set cs \<Longrightarrow> priority c \<le> 200"
proof (induction ls arbitrary: i cs)
  case Nil
  then show ?case by simp
next
  case (Cons l ls)
  from Cons.prems(1) show ?case
  proof (cases rule: strategy1_step)
    case (keyword same nxt rest)
    from Cons.prems(2) keyword(4) consider "c \<in> set same" | "c \<in> set nxt" | "c \<in> set rest"
      by auto
    then show ?thesis
    proof cases
      case 1
      then show ?thesis using same_line_priority[OF keyword(1)] by auto
    next
      case 2
      then show ?thesis using next_of_priority[OF keyword(2)] by auto
    next
      case 3
      then show ?thesis using Cons.IH keyword(3) by blast
    qed
  next
    case skip
    then show ?thesis using Cons.IH Cons.prems(2) by blast
  qed
qed

lemma grand_total_line:
  "same_line_cands i (str ''Grand Total 1200'') =
     Inr [\<lparr>cand.amount = 1200, priority = 200, line = str ''Grand Total 1200'', line_index = i\<rparr>]"
  by (simp add: ev)

lemma grand_total_keyword:
  "has_keyword total_keywords (lower (str ''Grand Total 1200''))
   \<and> \<not> has_keyword ignore_keywords (lower (str ''Grand Total 1200''))"
  by (simp add: ev)

lemma strategy1_grand_total:
  "\<forall>l\<in>set pre. \<not> top_phrase l \<Longrightarrow>
   \<exists>before c after. strategy1 i (pre @ str ''Grand Total 1200'' # post) = Inr (before @ c # after)
      \<and> cand.amount c = 1200 \<and> priority c = 200 \<and> (\<forall>d\<in>set before. priority d < 200)"
proof (induction pre arbitrary: i)
  case Nil
  obtain cs where cs: "strategy1 i (str ''Grand Total 1200'' # post) = Inr cs"
    using strategy1_no_raise by blast
  let ?c = "\<lparr>cand.amount = 1200, priority = 200, line = str ''Grand Total 1200'', line_index = i\<rparr>"
  from cs have "\<exists>after. cs = [] @ ?c # after"
  proof (cases rule: strategy1_step)
    case (keyword same nxt rest)
    have "same = [?c]" using keyword(1) grand_total_line[of i] by simp
    then have "cs = [] @ ?c # (nxt @ rest)" using keyword(4) by simp
    then show ?thesis by blast
  next
    case skip
    then show ?thesis using grand_total_keyword by simp
  qed
  then obtain after where "strategy1 i ([] @ str ''Grand Total 1200'' # post) = Inr ([] @ ?c # after)"
    using cs by auto
  moreover have "cand.amount ?c = 1200" "priority ?c = 200" "\<forall>d\<in>set []. priority d < 200"
    by simp_all
  ultimately show ?case by blast
next
  case (Cons l pre)
  from Cons.prems have nt: "\<not> top_phrase l" and rest: "\<forall>l\<in>set pre. \<not> top_phrase l" by auto
  from Cons.IH[OF rest, of "i + 1"] obtain before c after where
    ih: "strategy1 (i + 1) (pre @ str ''Grand Total 1200'' # post) = Inr (before @ c # after)"
    "cand.amount c = 1200" "priority c = 200" "\<forall>d\<in>set before. priority d < 200"
    by blast
  obtain cs where cs: "strategy1 i (l # pre @ str ''Grand Total 1200'' # post) = Inr cs"
    using strategy1_no_raise by blast
  from cs have "\<exists>before'. cs = before' @ c # after \<and> (\<forall>d\<in>set before'. priority d < 200)"
  proof (cases rule: strategy1_step)
    case (keyword same nxt rest')
    have s: "\<forall>d\<in>set same. priority d < 200" using same_line_priority[OF keyword(1)] nt by auto
    have x: "\<forall>d\<in>set nxt. priority d < 200" using next_of_priority[OF keyword(2)] by auto
    have "cs = (same @ nxt @ before) @ c # after" using keyword(3,4) ih(1) by simp
    moreover have "\<forall>d\<in>set (same @ nxt @ before). priority d < 200" using s x ih(4) by auto
    ultimately show ?thesis by blast
  next
    case skip
    then have "cs = before @ c # after" using ih(1) by simp
    then show ?thesis using ih(4) by blast
  qed
  then obtain before' where "strategy1 i ((l # pre) @ str ''Grand Total 1200'' # post) = Inr (before' @ c # after)"
    "\<forall>d\<in>set before'. priority d < 200" using cs by auto
  then show ?case using ih(2,3) by blast
qed

lemma grand_total_resolves:
  assumes "split_on 10 text = pre @ str ''Grand Total 1200'' # post"
    "\<forall>l\<in>set pre. \<not> top_phrase l"
  shows "extract_total_amount text = Inr (Some 1200)"
proof -
  from strategy1_grand_total[OF assms(2), of 0 post] obtain before c after where
    s: "strategy1 0 (split_on 10 text) = Inr (before @ c # after)"
    "cand.amount c = 1200" "priority c = 200" "\<forall>d\<in>set before. priority d < 200"
    using assms(1) by auto
  have "\<forall>d\<in>set (before @ c # after). priority d \<le> 200"
    using strategy1_priority[OF s(1)] by blast
  then have "select (before @ c # after) = Some 1200"
    using select_first_200[of before c after] s by simp
  then show ?thesis using s(1) by (simp add: extract_total_amount_def candidates_def seq_exn_def)
qed

text \<open>
  Claim C2, as the code has it. For every recognized text the resolver returns the amount of the
  first candidate, in the order of discovery, among those of the highest priority (and nothing
  when there is no candidate). For every text with a line Grand Total 1200 before which no line
  holds the phrase grand total or net amount, whatever the other lines are, it returns 1200; so
  it does for the lines Subtotal 900 and Grand Total 1200 in either order.
\<close>

theorem amount_selection:
  "(\<exists>cs. candidates text = Inr cs
        \<and> extract_total_amount text = Inr (map_option cand.amount (find (best_in cs) cs)))
   \<and> (split_on 10 text = pre @ str ''Grand Total 1200'' # post \<longrightarrow>
        (\<forall>l\<in>set pre. \<not> top_phrase l) \<longrightarrow>
        extract_total_amount text = Inr (Some 1200))
   \<and> extract_total_amount (unlines [str ''Subtotal 900'', str ''Grand Total 1200'']) = Inr (Some 1200)
   \<and> extract_total_amount (unlines [str ''Grand Total 1200'', str ''Subtotal 900'']) = Inr (Some 1200)"
proof (intro conjI impI)
  obtain cs where cs: "candidates text = Inr cs" using candidates_no_raise by blast
  then have "extract_total_amount text = Inr (map_option cand.amount (find (best_in cs) cs))"
    by (simp add: extract_total_amount_def seq_exn_def select_first_best)
  then show "\<exists>cs. candidates text = Inr cs
        \<and> extract_total_amount text = Inr (map_option cand.amount (find (best_in cs) cs))"
    using cs by blast
next
  assume "split_on 10 text = pre @ str ''Grand Total 1200'' # post"
    "\<forall>l\<in>set pre. \<not> top_phrase l"
  then show "extract_total_amount text = Inr (Some 1200)" by (rule grand_total_resolves)
next
  show "extract_total_amount (unlines [str ''Subtotal 900'', str ''Grand Total 1200'']) = Inr (Some 1200)"
    by (simp add: ev)
  show "extract_total_amount (unlines [str ''Grand Total 1200'', str ''Subtotal 900'']) = Inr (Some 1200)"
    by (simp add: ev)
qed

theorem amount_selection_witness:
  "split_on 10 (unlines [str ''Subtotal 900'', str ''Grand Total 1200'', str ''Rs 50'']) =
     [str ''Subtotal 900''] @ str ''Grand Total 1200'' # [str ''Rs 50'']
   \<and> \<not> top_phrase (str ''Subtotal 900'')
   \<and> extract_total_amount (unlines [str ''Subtotal 900'', str ''Grand Total 1200'', str ''Rs 50''])
       = Inr (Some 1200)"
proof -
  have s: "split_on 10 (unlines [str ''Subtotal 900'', str ''Grand Total 1200'', str ''Rs 50'']) =
     [str ''Subtotal 900''] @ str ''Grand Total 1200'' # [str ''Rs 50'']"
    by (simp add: str_def)
  have t: "\<not> top_phrase (str ''Subtotal 900'')"
    by (simp add: top_phrase_def str_def lower_def lower_cp_def)
  show ?thesis
    using amount_selection[of "unlines [str ''Subtotal 900'', str ''Grand Total 1200'', str ''Rs 50'']"
        "[str ''Subtotal 900'']" "[str ''Rs 50'']"] s t
    by simp
qed

theorem earlier_net_amount_wins:
  "split_on 10 (unlines [str ''Net Amount Rs 900'', str ''Subtotal 900'', str ''Grand Total 1200'']) =
     [str ''Net Amount Rs 900'', str ''Subtotal 900'', str ''Grand Total 1200'']
   \<and> extract_total_amount
         (unlines [str ''Net Amount Rs 900'', str ''Subtotal 900'', str ''Grand Total 1200''])
       = Inr (Some 900)"
  by (simp add: ev)

section \<open>Bare decimals and the amount patterns\<close>

lemma run4_no_digits: "list_all (\<lambda>c. \<not> is_digit c) s \<Longrightarrow> \<not> run4 n s"
  by (induction s arbitrary: n) auto

lemma run4_skip: "list_all (\<lambda>c. \<not> is_digit c) pre \<Longrightarrow> run4 0 (pre @ s) = run4 0 s"
  by (induction pre) auto

lemma run4_found:
  "list_all is_digit w \<Longrightarrow> 4 \<le> length w \<Longrightarrow> run4 n (a @ w @ b)"
proof (induction a arbitrary: n)
  case Nil
  from Nil(2) have "Suc (Suc (Suc (Suc 0))) \<le> length w" by simp
  then obtain d1 d2 d3 d4 t where w: "w = d1 # d2 # d3 # d4 # t"
    by (auto simp: Suc_le_length_iff)
  with Nil show ?case by auto
next
  case (Cons x a)
  then show ?case by auto
qed

lemma dcd_no_digits: "list_all (\<lambda>c. \<not> is_digit c) s \<Longrightarrow> \<not> dcd k s"
  by (induction s arbitrary: k) auto

lemma dcd_skip: "list_all (\<lambda>c. \<not> is_digit c) pre \<Longrightarrow> dcd 0 (pre @ s) = dcd 0 s"
proof (induction pre)
  case Nil
  then show ?case by simp
next
  case (Cons c pre)
  then show ?case by simp
qed

lemma dcd_found: "is_digit x \<Longrightarrow> is_digit y \<Longrightarrow> dcd k (a @ x # 44 # y # b)"
proof (induction a arbitrary: k)
  case Nil
  then show ?case by (simp add: is_digit_def)
next
  case (Cons c a)
  then show ?case by auto
qed

lemma bare_decimal_scans:
  assumes "bare_decimal_line l"
  shows "\<not> run4 0 l \<and> \<not> dcd 0 l"
proof -
  from assms obtain pre ds e1 e2 post where l: "l = pre @ ds @ [46, e1, e2] @ post"
    and ds: "ds \<noteq> []" "length ds \<le> 3" "list_all is_digit ds"
    and e: "is_digit e1" "is_digit e2"
    and np: "list_all (\<lambda>c. \<not> is_digit c) pre" "list_all (\<lambda>c. \<not> is_digit c) post"
    unfolding bare_decimal_line_def by blast
  have p46: "\<not> is_digit 46" by (simp add: is_digit_def)
  from ds(1,2) have "length ds = Suc 0 \<or> length ds = Suc (Suc 0) \<or> length ds = Suc (Suc (Suc 0))"
    by (cases "length ds") auto
  then consider a where "ds = [a]" | a b where "ds = [a, b]" | a b c where "ds = [a, b, c]"
    by (auto simp: length_Suc_conv)
  then have "\<not> run4 0 (ds @ [46, e1, e2] @ post) \<and> \<not> dcd 0 (ds @ [46, e1, e2] @ post)"
  proof cases
    case 1
    then show ?thesis using ds e p46 run4_no_digits[OF np(2)] dcd_no_digits[OF np(2)] by simp
  next
    case 2
    then show ?thesis using ds e p46 run4_no_digits[OF np(2)] dcd_no_digits[OF np(2)] by simp
  next
    case 3
    then show ?thesis using ds e p46 run4_no_digits[OF np(2)] dcd_no_digits[OF np(2)] by simp
  qed
  then show ?thesis using l run4_skip[OF np(1)] dcd_skip[OF np(1)] by simp
qed

lemma ms_Seq_ne:
  "ms ic ml (Seq a b) st \<noteq> [] \<Longrightarrow> \<exists>st1\<in>set (ms ic ml a st). ms ic ml b st1 \<noteq> []"
  by auto

lemma ms_Alt_ne: "ms ic ml (Alt a b) st \<noteq> [] \<Longrightarrow> ms ic ml a st \<noteq> [] \<or> ms ic ml b st \<noteq> []"
  by auto

lemma ms_Grp_ne: "ms ic ml (Grp i r) st \<noteq> [] \<Longrightarrow> ms ic ml r st \<noteq> []"
  by (cases st) auto

lemma ms_WordB_mem: "st1 \<in> set (ms ic ml WordB st) \<Longrightarrow> st1 = st"
  by (cases st) (auto split: if_splits)

lemma ms_Ch_mem:
  "st1 \<in> set (ms ic ml (Ch items) st) \<Longrightarrow>
   \<exists>c s'. fst (snd st) = c # s' \<and> cls_match ic items c \<and> fst (snd st1) = s'"
  by (cases st) (auto split: list.splits if_splits)

lemma ms_length: "st' \<in> set (ms ic ml r st) \<Longrightarrow> length (fst (snd st')) \<le> length (fst (snd st))"
  using ms_suffix[of st' ic ml r st] by auto

lemma rep_ch_len:
  "st' \<in> set (ms ic ml (Rep m n (Ch items)) st) \<Longrightarrow>
   m + length (fst (snd st')) \<le> length (fst (snd st))"
proof (induction m arbitrary: n st)
  case 0
  then show ?case using ms_length by simp
next
  case (Suc m)
  obtain p s cs where st: "st = (p, s, cs)" by (cases st) auto
  from Suc.prems[unfolded st] show ?case
  proof (cases rule: ms_Rep_cases)
    case stop
    then show ?thesis by simp
  next
    case (iter st1)
    from ms_Ch_mem[OF iter(2)] obtain c where "s = c # fst (snd st1)" by auto
    moreover from Suc.IH[of "dec_bound n" st1] iter(4)
    have "m + length (fst (snd st')) \<le> length (fst (snd st1))" by simp
    ultimately show ?thesis using st by simp
  qed
qed

lemma digits_run:
  assumes "st' \<in> set (ms True False (Rep m n dig) (p, s, cs))"
  shows "\<exists>w. consumed (p, s, cs) st' w \<and> list_all is_digit w \<and> m \<le> length w"
proof -
  have "rx_chars is_digit True (Rep m n dig)" by (simp add: dig_def cls_match_def)
  from ms_consumed[OF assms this] obtain w where w: "consumed (p, s, cs) st' w" "\<forall>c\<in>set w. is_digit c"
    by blast
  have "m + length (fst (snd st')) \<le> length s"
    using rep_ch_len[of st' True False m n "[D]" "(p, s, cs)"] assms by (simp add: dig_def)
  moreover have "s = w @ fst (snd st')" using w(1) by (simp add: consumed_def)
  ultimately have "m \<le> length w" by (metis add.commute add_le_cancel_left length_append)
  then show ?thesis using w by (auto simp: list_all_iff)
qed

lemma cls_lower_lc: "cls_match True [R a a] c \<Longrightarrow> 97 \<le> a \<Longrightarrow> a \<le> 122 \<Longrightarrow> lower_cp c = a"
  by (auto simp: cls_match_def lower_cp_def upper_cp_def split: if_splits)

lemma cls_lower_uc: "cls_match True [R a a] c \<Longrightarrow> 65 \<le> a \<Longrightarrow> a \<le> 90 \<Longrightarrow> lower_cp c = a + 32"
  by (auto simp: cls_match_def lower_cp_def upper_cp_def split: if_splits)

lemma cls_exact: "cls_match True [R a a] c \<Longrightarrow> a < 65 \<or> 122 < a \<Longrightarrow> c = a"
  by (auto simp: cls_match_def lower_cp_def upper_cp_def split: if_splits)

lemma seqs_first_ne: "ms ic ml (seqs (a # rs)) st \<noteq> [] \<Longrightarrow> ms ic ml a st \<noteq> []"
  by (auto simp: seqs_def)

lemma seqs_step:
  "ms ic ml (seqs (a # rs)) st \<noteq> [] \<Longrightarrow> \<exists>st1\<in>set (ms ic ml a st). ms ic ml (seqs rs) st1 \<noteq> []"
  by (auto simp: seqs_def)

lemma ch_ne:
  "ms True ml (Ch [R a a]) (p, s, cs) \<noteq> [] \<Longrightarrow> \<exists>c t. s = c # t \<and> cls_match True [R a a] c"
  by (auto split: list.splits if_splits)

lemma lit2_ne:
  assumes "ms True ml (lit [x, y]) (p, s, cs) \<noteq> []"
  shows "\<exists>c1 c2 t. s = c1 # c2 # t \<and> cls_match True [R (of_char x) (of_char x)] c1 \<and>
           cls_match True [R (of_char y) (of_char y)] c2"
proof -
  from assms have "ms True ml (seqs [chr x, chr y]) (p, s, cs) \<noteq> []" by (simp add: lit_def)
  from seqs_step[OF this] obtain st1 where 1: "st1 \<in> set (ms True ml (chr x) (p, s, cs))"
    and 2: "ms True ml (seqs [chr y]) st1 \<noteq> []" by blast
  from 1 ms_Ch_mem[of st1 True ml _ "(p, s, cs)"] obtain c1 s1 where
    s: "s = c1 # s1" and c1: "cls_match True [R (of_char x) (of_char x)] c1" and r: "fst (snd st1) = s1"
    unfolding chr_def by fastforce
  obtain p1 cs1 where st1: "st1 = (p1, s1, cs1)" using r by (cases st1) auto
  from seqs_first_ne[OF 2] have "ms True ml (Ch [R (of_char y) (of_char y)]) (p1, s1, cs1) \<noteq> []"
    unfolding chr_def st1 .
  from ch_ne[OF this] s c1 show ?thesis by blast
qed

lemma lit3_ne:
  assumes "ms True ml (lit [x, y, z]) (p, s, cs) \<noteq> []"
  shows "\<exists>c1 c2 c3 t. s = c1 # c2 # c3 # t \<and> cls_match True [R (of_char x) (of_char x)] c1 \<and>
           cls_match True [R (of_char y) (of_char y)] c2 \<and> cls_match True [R (of_char z) (of_char z)] c3"
proof -
  from assms have "ms True ml (seqs [chr x, chr y, chr z]) (p, s, cs) \<noteq> []"
    by (simp add: lit_def)
  from seqs_step[OF this] obtain st1 where 1: "st1 \<in> set (ms True ml (chr x) (p, s, cs))"
    and 2: "ms True ml (seqs [chr y, chr z]) st1 \<noteq> []" by blast
  from 1 ms_Ch_mem[of st1 True ml _ "(p, s, cs)"] obtain c1 s1 where
    s: "s = c1 # s1" and c1: "cls_match True [R (of_char x) (of_char x)] c1" and r: "fst (snd st1) = s1"
    unfolding chr_def by fastforce
  obtain p1 cs1 where st1: "st1 = (p1, s1, cs1)" using r by (cases st1) auto
  from 2 have "ms True ml (lit [y, z]) (p1, s1, cs1) \<noteq> []"
    by (simp add: lit_def st1)
  from lit2_ne[OF this] s c1 show ?thesis by blast
qed

lemma rs_marker:
  assumes "ms True False (seqs [lit ''Rs'', ropt (chr CHR ''.'')]) (p, s, cs) \<noteq> []"
  shows "marker_at s"
proof -
  from lit2_ne[OF seqs_first_ne[OF assms]] obtain c1 c2 t where s: "s = c1 # c2 # t"
    and c1: "cls_match True [R (of_char CHR ''R'') (of_char CHR ''R'')] c1"
    and c2: "cls_match True [R (of_char CHR ''s'') (of_char CHR ''s'')] c2" by blast
  from cls_lower_uc[OF c1] have "lower_cp c1 = 114" by simp
  moreover from cls_lower_lc[OF c2] have "lower_cp c2 = 115" by simp
  ultimately show ?thesis using s by (simp add: marker_at_def)
qed

lemma rs_lc_marker:
  assumes "ms True False (seqs [lit ''rs'', ropt (chr CHR ''.'')]) (p, s, cs) \<noteq> []"
  shows "marker_at s"
proof -
  from lit2_ne[OF seqs_first_ne[OF assms]] obtain c1 c2 t where s: "s = c1 # c2 # t"
    and c1: "cls_match True [R (of_char CHR ''r'') (of_char CHR ''r'')] c1"
    and c2: "cls_match True [R (of_char CHR ''s'') (of_char CHR ''s'')] c2" by blast
  from cls_lower_lc[OF c1] have "lower_cp c1 = 114" by simp
  moreover from cls_lower_lc[OF c2] have "lower_cp c2 = 115" by simp
  ultimately show ?thesis using s by (simp add: marker_at_def)
qed

lemma rupee_marker:
  assumes "ms True False (Ch [R rupee rupee]) (p, s, cs) \<noteq> []"
  shows "marker_at s"
proof -
  from ch_ne[OF assms] obtain c t where s: "s = c # t" and c: "cls_match True [R rupee rupee] c"
    by blast
  from cls_exact[OF c] have "c = rupee" by (simp add: rupee_def)
  then show ?thesis using s by (simp add: marker_at_def)
qed

lemma inr_marker:
  assumes "ms True False (lit ''INR'') (p, s, cs) \<noteq> []"
  shows "marker_at s"
proof -
  from lit3_ne[OF assms] obtain c1 c2 c3 t where s: "s = c1 # c2 # c3 # t"
    and c1: "cls_match True [R (of_char CHR ''I'') (of_char CHR ''I'')] c1"
    and c2: "cls_match True [R (of_char CHR ''N'') (of_char CHR ''N'')] c2"
    and c3: "cls_match True [R (of_char CHR ''R'') (of_char CHR ''R'')] c3" by blast
  from cls_lower_uc[OF c1] have "lower_cp c1 = 105" by simp
  moreover from cls_lower_uc[OF c2] have "lower_cp c2 = 110" by simp
  moreover from cls_lower_uc[OF c3] have "lower_cp c3 = 114" by simp
  ultimately show ?thesis using s by (simp add: marker_at_def)
qed

lemma marker_match:
  assumes "ms True False (alts [seqs [lit ''Rs'', ropt (chr CHR ''.'')], Ch [R rupee rupee], lit ''INR'',
                         seqs [lit ''rs'', ropt (chr CHR ''.'')]]) (p, s, cs) \<noteq> []"
  shows "marker_at s"
proof -
  from assms have "ms True False (seqs [lit ''Rs'', ropt (chr CHR ''.'')]) (p, s, cs) \<noteq> []
    \<or> ms True False (Ch [R rupee rupee]) (p, s, cs) \<noteq> []
    \<or> ms True False (lit ''INR'') (p, s, cs) \<noteq> []
    \<or> ms True False (seqs [lit ''rs'', ropt (chr CHR ''.'')]) (p, s, cs) \<noteq> []"
    by (simp only: alts.simps ms.simps(4) append_is_Nil_conv de_Morgan_conj)
  then show ?thesis using rs_marker rupee_marker inr_marker rs_lc_marker by blast
qed

lemma marker_match3:
  assumes "ms True False (alts [seqs [lit ''Rs'', ropt (chr CHR ''.'')], Ch [R rupee rupee], lit ''INR''])
     (p, s, cs) \<noteq> []"
  shows "marker_at s"
proof -
  from assms have "ms True False (seqs [lit ''Rs'', ropt (chr CHR ''.'')]) (p, s, cs) \<noteq> []
    \<or> ms True False (Ch [R rupee rupee]) (p, s, cs) \<noteq> []
    \<or> ms True False (lit ''INR'') (p, s, cs) \<noteq> []"
    by (simp only: alts.simps ms.simps(4) append_is_Nil_conv de_Morgan_conj)
  then show ?thesis using rs_marker rupee_marker inr_marker by blast
qed

lemma marker_at_no:
  assumes "marker_at t"
  shows "\<not> no_marker (a @ t)"
proof -
  from assms consider
    (rs) c1 c2 u where "t = c1 # c2 # u" "lower_cp c1 = 114" "lower_cp c2 = 115"
    | (rupee) u where "t = rupee # u"
    | (inr) c1 c2 c3 u where "t = c1 # c2 # c3 # u" "lower_cp c1 = 105" "lower_cp c2 = 110"
        "lower_cp c3 = 114"
    unfolding marker_at_def by blast
  then show ?thesis
  proof cases
    case rs
    then have "lower (a @ t) = lower a @ str ''rs'' @ lower u" by (simp add: lower_def str_def)
    then have "contains (str ''rs'') (lower (a @ t))" unfolding contains_iff by blast
    then show ?thesis by (simp add: no_marker_def)
  next
    case rupee
    then show ?thesis by (simp add: no_marker_def)
  next
    case inr
    then have "lower (a @ t) = lower a @ str ''inr'' @ lower u" by (simp add: lower_def str_def)
    then have "contains (str ''inr'') (lower (a @ t))" unfolding contains_iff by blast
    then show ?thesis by (simp add: no_marker_def)
  qed
qed

lemma ne_obtain: "xs \<noteq> [] \<Longrightarrow> \<exists>x. x \<in> set xs"
  by (cases xs) auto

lemma pattern1_hit:
  assumes "ms True False
     (seqs [alts [seqs [lit ''Rs'', ropt (chr CHR ''.'')], Ch [R rupee rupee], lit ''INR'',
                  seqs [lit ''rs'', ropt (chr CHR ''.'')]],
            rstar spc, Grp 1 amount_shape]) (p, s, cs) \<noteq> []"
  shows "marker_at s"
  using marker_match[OF seqs_first_ne[OF assms]] .

lemma pattern2_hit:
  assumes "ms True False
     (seqs [Grp 1 amount_shape, rstar spc,
            alts [seqs [lit ''Rs'', ropt (chr CHR ''.'')], Ch [R rupee rupee], lit ''INR'']])
     (p, s, cs) \<noteq> []"
  shows "\<exists>w t. s = w @ t \<and> marker_at t"
proof -
  from seqs_step[OF assms] obtain st1 where 1: "st1 \<in> set (ms True False (Grp 1 amount_shape) (p, s, cs))"
    and 2: "ms True False (seqs [rstar spc,
            alts [seqs [lit ''Rs'', ropt (chr CHR ''.'')], Ch [R rupee rupee], lit ''INR'']]) st1 \<noteq> []"
    by blast
  from seqs_step[OF 2] obtain st2 where 3: "st2 \<in> set (ms True False (rstar spc) st1)"
    and 4: "ms True False
       (seqs [alts [seqs [lit ''Rs'', ropt (chr CHR ''.'')], Ch [R rupee rupee], lit ''INR'']]) st2 \<noteq> []"
    by blast
  obtain p2 s2 cs2 where st2: "st2 = (p2, s2, cs2)" by (cases st2) auto
  from seqs_first_ne[OF 4] have "marker_at s2" unfolding st2 by (rule marker_match3)
  moreover from ms_suffix[OF 1] obtain w1 where "s = w1 @ fst (snd st1)" by auto
  moreover from ms_suffix[OF 3] obtain w2 where "fst (snd st1) = w2 @ s2" by (auto simp: st2)
  ultimately have "s = (w1 @ w2) @ s2 \<and> marker_at s2" by simp
  then show ?thesis by blast
qed

lemma pattern3_hit:
  assumes "ms True False
     (seqs [WordB,
            Grp 1 (seqs [Rep 1 (Some 3) dig, rplus (seqs [chr CHR '','', Rep 3 (Some 3) dig]),
                         chr CHR ''.'', Rep 2 (Some 2) dig]),
            WordB]) (p, s, cs) \<noteq> []"
  shows "\<exists>w x y t. s = w @ x # 44 # y # t \<and> is_digit x \<and> is_digit y"
proof -
  from seqs_step[OF assms] obtain st1 where 1: "st1 \<in> set (ms True False WordB (p, s, cs))"
    and 2: "ms True False
       (seqs [Grp 1 (seqs [Rep 1 (Some 3) dig, rplus (seqs [chr CHR '','', Rep 3 (Some 3) dig]),
                         chr CHR ''.'', Rep 2 (Some 2) dig]), WordB]) st1 \<noteq> []"
    by blast
  from ms_WordB_mem[OF 1] have st1: "st1 = (p, s, cs)" .
  from ms_Grp_ne[OF seqs_first_ne[OF 2]] have
    3: "ms True False (seqs [Rep 1 (Some 3) dig, rplus (seqs [chr CHR '','', Rep 3 (Some 3) dig]),
                         chr CHR ''.'', Rep 2 (Some 2) dig]) (p, s, cs) \<noteq> []"
    unfolding st1 .
  from seqs_step[OF 3] obtain sa where 4: "sa \<in> set (ms True False (Rep 1 (Some 3) dig) (p, s, cs))"
    and 5: "ms True False (seqs [rplus (seqs [chr CHR '','', Rep 3 (Some 3) dig]),
                         chr CHR ''.'', Rep 2 (Some 2) dig]) sa \<noteq> []"
    by blast
  obtain pa ra ca where sa: "sa = (pa, ra, ca)" by (cases sa) auto
  from digits_run[OF 4] obtain w where w: "s = w @ ra" "list_all is_digit w" "1 \<le> length w"
    by (auto simp: consumed_def sa)
  from seqs_first_ne[OF 5] have
    "ms True False (Rep 1 None (seqs [chr CHR '','', Rep 3 (Some 3) dig])) (pa, ra, ca) \<noteq> []"
    unfolding rplus_def sa .
  from ne_obtain[OF this] obtain sb where
    6: "sb \<in> set (ms True False (Rep 1 None (seqs [chr CHR '','', Rep 3 (Some 3) dig])) (pa, ra, ca))"
    by blast
  from 6 obtain sc where
    7: "sc \<in> set (ms True False (seqs [chr CHR '','', Rep 3 (Some 3) dig]) (pa, ra, ca))"
    by (rule ms_Rep_cases) auto
  then have 8: "ms True False (seqs [chr CHR '','', Rep 3 (Some 3) dig]) (pa, ra, ca) \<noteq> []"
    by auto
  from seqs_step[OF 8] obtain sd where 9: "sd \<in> set (ms True False (chr CHR '','') (pa, ra, ca))"
    and 10: "ms True False (seqs [Rep 3 (Some 3) dig]) sd \<noteq> []"
    by blast
  obtain pd rd cd where sd: "sd = (pd, rd, cd)" by (cases sd) auto
  from 9 ms_Ch_mem[of sd True False _ "(pa, ra, ca)"] obtain c where
    c: "ra = c # rd" "cls_match True [R (of_char CHR '','') (of_char CHR '','')] c"
    unfolding chr_def by (auto simp: sd)
  from cls_exact[OF c(2)] have c44: "c = 44" by simp
  from seqs_first_ne[OF 10] have "ms True False (Rep 3 (Some 3) dig) (pd, rd, cd) \<noteq> []"
    unfolding sd .
  from ne_obtain[OF this] obtain se where
    11: "se \<in> set (ms True False (Rep 3 (Some 3) dig) (pd, rd, cd))" by blast
  from digits_run[OF 11] obtain w' where w': "rd = w' @ fst (snd se)" "list_all is_digit w'"
    "3 \<le> length w'"
    by (auto simp: consumed_def)
  from w'(3) obtain y w'' where y: "w' = y # w''" by (cases w') auto
  from w(3) have wne: "w \<noteq> []" by auto
  then have wsplit: "w = butlast w @ [last w]" by simp
  from wne w(2) have dl: "is_digit (last w)" by (simp add: list_all_iff)
  from y w'(2) have dy: "is_digit y" by simp
  have "s = (butlast w @ [last w]) @ ra" using w(1) wsplit by simp
  then have "s = butlast w @ last w # 44 # y # (w'' @ fst (snd se))"
    using c(1) c44 w'(1) y by simp
  with dl dy show ?thesis by blast
qed

lemma pattern4_hit:
  assumes "ms True False (seqs [WordB, Grp 1 (Rep 4 None dig), WordB]) (p, s, cs) \<noteq> []"
  shows "\<exists>w t. s = w @ t \<and> list_all is_digit w \<and> 4 \<le> length w"
proof -
  from seqs_step[OF assms] obtain st1 where 1: "st1 \<in> set (ms True False WordB (p, s, cs))"
    and 2: "ms True False (seqs [Grp 1 (Rep 4 None dig), WordB]) st1 \<noteq> []"
    by blast
  from ms_WordB_mem[OF 1] have st1: "st1 = (p, s, cs)" .
  from ms_Grp_ne[OF seqs_first_ne[OF 2]] have "ms True False (Rep 4 None dig) (p, s, cs) \<noteq> []"
    unfolding st1 .
  from ne_obtain[OF this] obtain sa where "sa \<in> set (ms True False (Rep 4 None dig) (p, s, cs))"
    by blast
  from digits_run[OF this] show ?thesis by (auto simp: consumed_def)
qed

lemma amount_pattern_hit:
  assumes "pattern \<in> set amount_patterns" and "ms True False pattern (p, s, cs) \<noteq> []"
  shows "(\<exists>w t. s = w @ t \<and> marker_at t)
       \<or> (\<exists>w x y t. s = w @ x # 44 # y # t \<and> is_digit x \<and> is_digit y)
       \<or> (\<exists>w t. s = w @ t \<and> list_all is_digit w \<and> 4 \<le> length w)"
proof -
  from assms(1) consider
    (p1) "pattern = seqs [alts [seqs [lit ''Rs'', ropt (chr CHR ''.'')], Ch [R rupee rupee], lit ''INR'',
                  seqs [lit ''rs'', ropt (chr CHR ''.'')]],
            rstar spc, Grp 1 amount_shape]"
    | (p2) "pattern = seqs [Grp 1 amount_shape, rstar spc,
            alts [seqs [lit ''Rs'', ropt (chr CHR ''.'')], Ch [R rupee rupee], lit ''INR'']]"
    | (p3) "pattern = seqs [WordB,
            Grp 1 (seqs [Rep 1 (Some 3) dig, rplus (seqs [chr CHR '','', Rep 3 (Some 3) dig]),
                         chr CHR ''.'', Rep 2 (Some 2) dig]),
            WordB]"
    | (p4) "pattern = seqs [WordB, Grp 1 (Rep 4 None dig), WordB]"
    unfolding amount_patterns_def by (simp only: list.set insert_iff empty_iff) blast
  then show ?thesis
  proof cases
    case p1
    with assms(2) pattern1_hit[of p s cs] have "marker_at s" by simp
    then have "s = [] @ s \<and> marker_at s" by simp
    then show ?thesis by blast
  next
    case p2
    with assms(2) pattern2_hit[of p s cs] show ?thesis by simp
  next
    case p3
    with assms(2) pattern3_hit[of p s cs] show ?thesis by simp
  next
    case p4
    with assms(2) pattern4_hit[of p s cs] show ?thesis by simp
  qed
qed

lemma amount_pattern_no_match:
  assumes "pattern \<in> set amount_patterns" and "no_marker (a @ s)" and "\<not> run4 0 (a @ s)"
    and "\<not> dcd 0 (a @ s)"
  shows "ms True False pattern (p, s, cs) = []"
proof (rule ccontr)
  assume "ms True False pattern (p, s, cs) \<noteq> []"
  from amount_pattern_hit[OF assms(1) this] consider
    (m) w t where "s = w @ t" "marker_at t"
    | (c) w x y t where "s = w @ x # 44 # y # t" "is_digit x" "is_digit y"
    | (r) w t where "s = w @ t" "list_all is_digit w" "4 \<le> length w"
    by blast
  then show False
  proof cases
    case m
    from marker_at_no[OF m(2), of "a @ w"] assms(2) m(1) show False by simp
  next
    case c
    from dcd_found[OF c(2) c(3), of 0 "a @ w" t] assms(4) c(1) show False by simp
  next
    case r
    from run4_found[OF r(2) r(3), of 0 a t] assms(3) r(1) show False by simp
  qed
qed

lemma search_none:
  "(\<And>a s' q. s = a @ s' \<Longrightarrow> ms ic ml r (q, s', []) = []) \<Longrightarrow> search_from ic ml r p s = None"
proof (induction s arbitrary: p)
  case Nil
  then show ?case by simp
next
  case (Cons c s)
  have "ms ic ml r (p, c # s, []) = []" using Cons.prems[of "[]" "c # s" p] by simp
  moreover have "search_from ic ml r (Some c) s = None"
  proof (rule Cons.IH)
    fix a s' q
    assume "s = a @ s'"
    then show "ms ic ml r (q, s', []) = []" using Cons.prems[of "c # a" s' q] by simp
  qed
  ultimately show ?case by simp
qed

lemma findall_none: "search_from ic ml r p s = None \<Longrightarrow> findall_from ic ml r p s = []"
  by (simp add: findall_from.simps)

lemma no_amount_matches:
  assumes "no_marker l" and "\<not> run4 0 l" and "\<not> dcd 0 l"
  shows "pattern \<in> set amount_patterns \<Longrightarrow> re_findall True False pattern l = []"
    and "amount_matches l = []"
proof -
  have *: "re_findall True False pattern l = []" if "pattern \<in> set amount_patterns" for pattern
    unfolding re_findall_def
  proof (rule findall_none, rule search_none)
    fix a s' q
    assume "l = a @ s'"
    with assms amount_pattern_no_match[OF that, of a s' q "[]"]
    show "ms True False pattern (q, s', []) = []" by simp
  qed
  then show "pattern \<in> set amount_patterns \<Longrightarrow> re_findall True False pattern l = []" .
  from * show "amount_matches l = []" by (simp add: amount_matches_def)
qed

lemma bare_decimal_no_matches:
  assumes "bare_decimal_line l" and "no_marker l"
  shows "amount_matches l = []"
    and "list_all (\<lambda>pattern. re_findall True False pattern l = []) amount_patterns"
proof -
  from bare_decimal_scans[OF assms(1)] have s: "\<not> run4 0 l" "\<not> dcd 0 l" by simp_all
  from no_amount_matches(2)[OF assms(2) s] show "amount_matches l = []" .
  from no_amount_matches(1)[OF assms(2) s]
  show "list_all (\<lambda>pattern. re_findall True False pattern l = []) amount_patterns"
    by (simp add: list_all_iff)
qed

lemma bare_decimal_total: "bare_decimal_line (str ''Total: 495.00'')"
  unfolding bare_decimal_line_def
  apply (rule exI[of _ "str ''Total: ''"], rule exI[of _ "str ''495''"], rule exI[of _ 48],
      rule exI[of _ 48], rule exI[of _ "[]"])
  by (simp add: str_def is_digit_def)

lemma bare_decimal_credit: "bare_decimal_line (str ''Credit: 495.00'')"
  unfolding bare_decimal_line_def
  apply (rule exI[of _ "str ''Credit: ''"], rule exI[of _ "str ''495''"], rule exI[of _ 48],
      rule exI[of _ 48], rule exI[of _ "[]"])
  by (simp add: str_def is_digit_def)

lemma bare_decimal_dinners: "bare_decimal_line (str ''Total dinners 45.50'')"
  unfolding bare_decimal_line_def
  apply (rule exI[of _ "str ''Total dinners ''"], rule exI[of _ "str ''45''"], rule exI[of _ 53],
      rule exI[of _ 48], rule exI[of _ "[]"])
  by (simp add: str_def is_digit_def)

text \<open>
  Claim C9, as the code has it. Take an ASCII line whose only numeric content is a bare decimal
  with one to three integer digits and two decimals, and which contains neither \<^verbatim>\<open>rs\<close>
  nor \<^verbatim>\<open>inr\<close> (in any case, also inside a word) nor the rupee sign. None of the four
  amount patterns matches anywhere in it, so the line adds no candidate under Strategy 1,
  neither as the keyword line nor as the line after it, and no amount under Strategy 3.
  Strategy 2 does not use the amount patterns and is not covered.
\<close>

theorem bare_decimal_no_candidate:
  assumes "bare_decimal_line l" and "no_marker l" and "ascii_only l"
  shows "list_all (\<lambda>pattern. re_findall True False pattern l = []) amount_patterns
       \<and> amount_matches l = []
       \<and> same_line_cands i l = Inr []
       \<and> next_line_cands i l = Inr []
       \<and> line_amounts l = Inr []"
proof -
  note m = bare_decimal_no_matches[OF assms(1) assms(2)]
  have "same_line_cands i l = Inr []" by (simp add: same_line_cands_def seq_exn_def m(1))
  moreover have "next_line_cands i l = Inr []" by (simp add: next_line_cands_def seq_exn_def m(1))
  moreover have "line_amounts l = Inr []" by (simp add: line_amounts_def seq_exn_def m(1))
  ultimately show ?thesis using m by simp
qed

theorem bare_decimal_no_candidate_witness:
  "bare_decimal_line (str ''Total: 495.00'') \<and> no_marker (str ''Total: 495.00'')
   \<and> ascii_only (str ''Total: 495.00'')
   \<and> list_all (\<lambda>pattern. re_findall True False pattern (str ''Total: 495.00'') = []) amount_patterns
   \<and> amount_matches (str ''Total: 495.00'') = []
   \<and> same_line_cands 4 (str ''Total: 495.00'') = Inr []
   \<and> next_line_cands 4 (str ''Total: 495.00'') = Inr []
   \<and> line_amounts (str ''Total: 495.00'') = Inr []"
proof -
  have n: "no_marker (str ''Total: 495.00'')"
    by (simp add: no_marker_def str_def lower_def lower_cp_def rupee_def)
  have a: "ascii_only (str ''Total: 495.00'')" by (simp add: ascii_only_def str_def)
  from bare_decimal_no_candidate[OF bare_decimal_total n a, of 4] bare_decimal_total n a
  show ?thesis by simp
qed

text \<open>
  Two lines whose only numeric content is such a bare decimal and which still give the
  amount. In \<^verbatim>\<open>Credit: 495.00\<close> no amount pattern matches, but the credit pattern of
  Strategy 2 takes the number after the word. In \<^verbatim>\<open>Total dinners 45.50\<close> the first
  amount pattern matches, because the word before the number ends in \<^verbatim>\<open>rs\<close>.
\<close>

theorem bare_decimal_still_resolved:
  "bare_decimal_line (str ''Credit: 495.00'') \<and> no_marker (str ''Credit: 495.00'')
   \<and> ascii_only (str ''Credit: 495.00'')
   \<and> amount_matches (str ''Credit: 495.00'') = []
   \<and> strategy2 (str ''Credit: 495.00'') =
       Inr [\<lparr>cand.amount = 495, priority = 80, line = str ''495.00'', line_index = - 1\<rparr>]
   \<and> extract_total_amount (str ''Credit: 495.00'') = Inr (Some 495)
   \<and> bare_decimal_line (str ''Total dinners 45.50'')
   \<and> amount_matches (str ''Total dinners 45.50'') = [str ''45.50'']
   \<and> extract_total_amount (str ''Total dinners 45.50'') = Inr (Some 45.5)"
proof -
  have n: "no_marker (str ''Credit: 495.00'')"
    by (simp add: no_marker_def str_def lower_def lower_cp_def rupee_def)
  have a: "ascii_only (str ''Credit: 495.00'')" by (simp add: ascii_only_def str_def)
  have m: "amount_matches (str ''Credit: 495.00'') = []"
    using bare_decimal_no_matches(1)[OF bare_decimal_credit n] .
  have s: "strategy2 (str ''Credit: 495.00'') =
       Inr [\<lparr>cand.amount = 495, priority = 80, line = str ''495.00'', line_index = - 1\<rparr>]"
    by (simp add: ev)
  have e: "extract_total_amount (str ''Credit: 495.00'') = Inr (Some 495)"
    by (simp add: ev)
  have d: "amount_matches (str ''Total dinners 45.50'') = [str ''45.50'']"
    by (simp add: ev)
  have f: "extract_total_amount (str ''Total dinners 45.50'') = Inr (Some 45.5)"
    by (simp add: ev)
  from bare_decimal_credit n a m s e bare_decimal_dinners d f show ?thesis by blast
qed

end
